theory Spec2Isabelle
  imports Complex_Main
begin

section \<open>The store of Branch objects\<close>

text \<open>
  A Branch object is an address; each field of the class is a map from addresses to
  values (a split heap). Two variables alias exactly when they hold the same address.
  The fields \<open>_guid\<close>, \<open>data\<close> and the counter written by \<open>excise\<close> are not read by any
  operation below and are left out. Numbers are exact rationals; \<open>depth\<close> and \<open>height\<close>
  are integers. \<open>next_addr\<close> is the address the next \<open>new Branch\<close> receives.
\<close>

type_synonym addr = nat

record heap =
  b_id :: "addr \<Rightarrow> string"
  b_length :: "addr \<Rightarrow> rat"
  b_parent :: "addr \<Rightarrow> addr option"
  b_children :: "addr \<Rightarrow> addr list"
  b_depth :: "addr \<Rightarrow> int"
  b_height :: "addr \<Rightarrow> int"
  b_value :: "addr \<Rightarrow> rat"
  next_addr :: addr

datatype error =
    ExciseRootError
  | InvertRootError
  | NoCommonAncestor
  | TypeError
  | NotANumber

text \<open>
  A call either returns a value and a state or throws in a state. A call that may loop
  forever takes fuel and yields \<open>None\<close> when the fuel is used up. \<open>NotANumber\<close> is not
  an exception of the code: it marks the places where the code goes on with NaN or an
  infinity, which the rational numbers of the store cannot hold.
\<close>

datatype ('a, 's) result = Return 'a 's | Throw error 's

definition bind_res ::
  "('a, 's) result option \<Rightarrow> ('a \<Rightarrow> 's \<Rightarrow> ('b, 's) result option) \<Rightarrow> ('b, 's) result option" where
  "bind_res m f =
     (case m of
        None \<Rightarrow> None
      | Some (Throw e s) \<Rightarrow> Some (Throw e s)
      | Some (Return a s) \<Rightarrow> f a s)"

definition empty_heap :: heap where
  "empty_heap =
     \<lparr> b_id = (\<lambda>_. []), b_length = (\<lambda>_. 0), b_parent = (\<lambda>_. None),
       b_children = (\<lambda>_. []), b_depth = (\<lambda>_. 0), b_height = (\<lambda>_. 0),
       b_value = (\<lambda>_. 0), next_addr = 0 \<rparr>"

text \<open>\<open>new Branch({id, length, parent, children})\<close>: depth and height 0, value 1.\<close>

definition Branch :: "string \<Rightarrow> rat \<Rightarrow> addr option \<Rightarrow> addr list \<Rightarrow> heap \<Rightarrow> addr \<times> heap" where
  "Branch i l p cs h =
     (let a = next_addr h in
      (a, h\<lparr> b_id := (b_id h)(a := i),
             b_length := (b_length h)(a := l),
             b_parent := (b_parent h)(a := p),
             b_children := (b_children h)(a := cs),
             b_depth := (b_depth h)(a := 0),
             b_height := (b_height h)(a := 0),
             b_value := (b_value h)(a := 1),
             next_addr := Suc a \<rparr>))"

subsection \<open>Array primitives\<close>

text \<open>\<open>Array.prototype.indexOf\<close>: the first index, or -1.\<close>

fun indexOf :: "'a list \<Rightarrow> 'a \<Rightarrow> int" where
  "indexOf [] x = - 1"
| "indexOf (y # ys) x =
     (if y = x then 0 else (let i = indexOf ys x in if i < 0 then - 1 else i + 1))"

text \<open>
  \<open>Array.prototype.splice(start, deleteCount, ...items)\<close>: a negative start counts from
  the end, so \<open>splice(-1, 1)\<close> removes the last element.
\<close>

definition splice :: "'a list \<Rightarrow> int \<Rightarrow> nat \<Rightarrow> 'a list \<Rightarrow> 'a list" where
  "splice xs start deleteCount items =
     (let n = int (length xs);
          k = nat (if start < 0 then max (n + start) 0 else min start n)
      in take k xs @ items @ drop (k + deleteCount) xs)"

text \<open>
  \<open>Array.prototype.forEach\<close> on a live array: the length is read once, the elements
  are read from the array as it is when their index is reached, and an index beyond the
  current end is skipped. \<open>arr\<close> reads the array from the state; the first numeric
  argument counts the indices still to visit, the second is the index.
\<close>

fun forEach ::
  "('s \<Rightarrow> addr list) \<Rightarrow> ('s \<Rightarrow> addr \<Rightarrow> (unit, 's) result option) \<Rightarrow> nat \<Rightarrow> nat \<Rightarrow> 's
     \<Rightarrow> (unit, 's) result option" where
  "forEach arr cb 0 k s = Some (Return () s)"
| "forEach arr cb (Suc n) k s =
     (if k < length (arr s)
      then bind_res (cb s (arr s ! k)) (\<lambda>_ s'. forEach arr cb n (Suc k) s')
      else forEach arr cb n (Suc k) s)"

subsection \<open>Structural primitives\<close>

definition isRoot :: "heap \<Rightarrow> addr \<Rightarrow> bool" where
  "isRoot h this = (b_parent h this = None)"

definition isLeaf :: "heap \<Rightarrow> addr \<Rightarrow> bool" where
  "isLeaf h this = (length (b_children h this) = 0)"

definition eachChild ::
  "(heap \<Rightarrow> addr \<Rightarrow> (unit, heap) result option) \<Rightarrow> heap \<Rightarrow> addr \<Rightarrow> (unit, heap) result option" where
  "eachChild callback h this =
     forEach (\<lambda>s. b_children s this) callback (length (b_children h this)) 0 h"

text \<open>\<open>addChild\<close> with an existing Branch: sets its parent and pushes it.\<close>

definition addChild :: "heap \<Rightarrow> addr \<Rightarrow> addr \<Rightarrow> addr \<times> heap" where
  "addChild h this c =
     (let h1 = h\<lparr> b_parent := (b_parent h)(c \<mapsto> this) \<rparr>
      in (c, h1\<lparr> b_children := (b_children h1)(this := b_children h1 this @ [c]) \<rparr>))"

text \<open>\<open>addChild\<close> with a data object \<open>{id, length}\<close>: a new Branch whose parent is this.\<close>

definition addChild_data :: "heap \<Rightarrow> addr \<Rightarrow> string \<Rightarrow> rat \<Rightarrow> addr \<times> heap" where
  "addChild_data h this i l =
     (let (c, h1) = Branch i l (Some this) [] h
      in (c, h1\<lparr> b_children := (b_children h1)(this := b_children h1 this @ [c]) \<rparr>))"

definition setParent :: "heap \<Rightarrow> addr \<Rightarrow> addr option \<Rightarrow> heap" where
  "setParent h this p = h\<lparr> b_parent := (b_parent h)(this := p) \<rparr>"

text \<open>\<open>addParent\<close> with an existing Branch \<open>c\<close> and a list of siblings.\<close>

definition addParent :: "heap \<Rightarrow> addr \<Rightarrow> addr \<Rightarrow> addr list \<Rightarrow> heap" where
  "addParent h this c siblings =
     (let h1 = fold (\<lambda>sib s. setParent s sib (Some c)) siblings h;
          h2 = h1\<lparr> b_children := (b_children h1)(c := this # siblings) \<rparr>
      in h2\<lparr> b_parent := (b_parent h2)(this \<mapsto> c) \<rparr>)"

text \<open>
  \<open>excise\<close>: the check of a root with several children comes first. Each child gets the
  length of this branch added and the parent of this branch, and is pushed to that
  parent's children unless this branch is a root. Then this branch is spliced out of its
  parent's children; on a root that read of \<open>this.parent.children\<close> is a TypeError.
\<close>

definition excise_child :: "addr \<Rightarrow> heap \<Rightarrow> addr \<Rightarrow> (unit, heap) result option" where
  "excise_child this h child =
     (let h1 = h\<lparr> b_length := (b_length h)(child := b_length h child + b_length h this) \<rparr>;
          h2 = h1\<lparr> b_parent := (b_parent h1)(child := b_parent h1 this) \<rparr>
      in case b_parent h2 this of
           None \<Rightarrow> Some (Return () h2)
         | Some p \<Rightarrow>
             Some (Return () (h2\<lparr> b_children := (b_children h2)(p := b_children h2 p @ [child]) \<rparr>)))"

definition excise :: "heap \<Rightarrow> addr \<Rightarrow> (addr, heap) result option" where
  "excise h this =
     (if isRoot h this \<and> length (b_children h this) > 1 then Some (Throw ExciseRootError h)
      else bind_res (eachChild (excise_child this) h this) (\<lambda>_ h1.
        case b_parent h1 this of
          None \<Rightarrow> Some (Throw TypeError h1)
        | Some p \<Rightarrow>
            Some (Return p
              (h1\<lparr> b_children := (b_children h1)
                     (p := splice (b_children h1 p) (indexOf (b_children h1 p) this) 1 []) \<rparr>))))"

subsection \<open>Traversals\<close>

text \<open>
  \<open>eachAfter\<close> and \<open>eachBefore\<close> run \<open>forEach\<close> over the live children array of the
  visited Branch, so a callback that pushes to or splices that array changes which
  elements the traversal reaches. The state \<open>'s\<close> holds the store and the variables the
  callback closes over; \<open>hp\<close> reads the store from it.
\<close>

primrec eachAfter ::
  "nat \<Rightarrow> ('s \<Rightarrow> heap) \<Rightarrow> ('s \<Rightarrow> addr \<Rightarrow> (unit, 's) result option) \<Rightarrow> 's \<Rightarrow> addr
     \<Rightarrow> (unit, 's) result option" where
  "eachAfter 0 hp callback s this = None"
| "eachAfter (Suc fuel) hp callback s this =
     bind_res
       (forEach (\<lambda>s'. b_children (hp s') this) (\<lambda>s' child. eachAfter fuel hp callback s' child)
          (length (b_children (hp s) this)) 0 s)
       (\<lambda>_ s'. callback s' this)"

primrec eachBefore ::
  "nat \<Rightarrow> ('s \<Rightarrow> heap) \<Rightarrow> ('s \<Rightarrow> addr \<Rightarrow> (unit, 's) result option) \<Rightarrow> 's \<Rightarrow> addr
     \<Rightarrow> (unit, 's) result option" where
  "eachBefore 0 hp callback s this = None"
| "eachBefore (Suc fuel) hp callback s this =
     bind_res (callback s this) (\<lambda>_ s1.
       forEach (\<lambda>s'. b_children (hp s') this) (\<lambda>s' child. eachBefore fuel hp callback s' child)
         (length (b_children (hp s1) this)) 0 s1)"

primrec getRoot :: "nat \<Rightarrow> heap \<Rightarrow> addr \<Rightarrow> addr option" where
  "getRoot 0 h branch = None"
| "getRoot (Suc fuel) h branch =
     (case b_parent h branch of None \<Rightarrow> Some branch | Some p \<Rightarrow> getRoot fuel h p)"

subsection \<open>fixDistances\<close>

text \<open>
  The first callback closes over \<open>maxdepth\<close>, the second component of its state. The
  second callback reads the final \<open>maxdepth\<close>.
\<close>

definition fixDistances_before :: "heap \<times> int \<Rightarrow> addr \<Rightarrow> (unit, heap \<times> int) result option" where
  "fixDistances_before s d =
     (let h = fst s; maxdepth = snd s in
      case b_parent h d of
        None \<Rightarrow> Some (Return () s)
      | Some p \<Rightarrow>
          (let dd = b_depth h p + 1;
               h1 = h\<lparr> b_depth := (b_depth h)(d := dd) \<rparr>
           in Some (Return () (h1, if dd > maxdepth then dd else maxdepth))))"

definition fixDistances_after :: "heap \<times> int \<Rightarrow> addr \<Rightarrow> (unit, heap \<times> int) result option" where
  "fixDistances_after s d =
     (let h = fst s; maxdepth = snd s;
          h1 = h\<lparr> b_height := (b_height h)(d := maxdepth - b_depth h d) \<rparr>;
          v = b_value h1 d + foldl (\<lambda>a c. a + b_value h1 c) 0 (b_children h1 d)
      in Some (Return () (h1\<lparr> b_value := (b_value h1)(d := v) \<rparr>, maxdepth)))"

definition fixDistances :: "nat \<Rightarrow> heap \<Rightarrow> addr \<Rightarrow> (addr, heap) result option" where
  "fixDistances fuel h this =
     (case getRoot fuel h this of
        None \<Rightarrow> None
      | Some rt \<Rightarrow>
          (let h1 = h\<lparr> b_depth := (b_depth h)(rt := 0) \<rparr> in
           case eachBefore fuel fst fixDistances_before (h1, 0) this of
             None \<Rightarrow> None
           | Some (Throw e s) \<Rightarrow> Some (Throw e (fst s))
           | Some (Return _ s1) \<Rightarrow>
               (case eachAfter fuel fst fixDistances_after s1 this of
                  None \<Rightarrow> None
                | Some (Throw e s) \<Rightarrow> Some (Throw e (fst s))
                | Some (Return _ s2) \<Rightarrow> Some (Return this (fst s2)))))"

subsection \<open>sum and count\<close>




subsection \<open>each and normalize\<close>

text \<open>
  \<open>each\<close> visits level by level. \<open>current\<close> is the reversed \<open>next\<close> and is popped
  from its end, so a level is visited in the order in which it was pushed; after the
  callback on a Branch its children are pushed to \<open>next\<close>.
\<close>

fun each_level ::
  "('s \<Rightarrow> heap) \<Rightarrow> ('s \<Rightarrow> addr \<Rightarrow> (unit, 's) result option) \<Rightarrow> addr list \<Rightarrow> 's \<Rightarrow> addr list
     \<Rightarrow> (addr list, 's) result option" where
  "each_level hp callback [] s next = Some (Return next s)"
| "each_level hp callback (branch # current) s next =
     bind_res (callback s branch) (\<lambda>_ s'.
       each_level hp callback current s' (next @ b_children (hp s') branch))"

primrec each_loop ::
  "nat \<Rightarrow> ('s \<Rightarrow> heap) \<Rightarrow> ('s \<Rightarrow> addr \<Rightarrow> (unit, 's) result option) \<Rightarrow> 's \<Rightarrow> addr list
     \<Rightarrow> (unit, 's) result option" where
  "each_loop 0 hp callback s next = None"
| "each_loop (Suc fuel) hp callback s next =
     (if next = [] then Some (Return () s)
      else bind_res (each_level hp callback next s []) (\<lambda>next' s'.
             each_loop fuel hp callback s' next'))"

definition each ::
  "nat \<Rightarrow> ('s \<Rightarrow> heap) \<Rightarrow> ('s \<Rightarrow> addr \<Rightarrow> (unit, 's) result option) \<Rightarrow> 's \<Rightarrow> addr
     \<Rightarrow> (unit, 's) result option" where
  "each fuel hp callback s this = each_loop fuel hp callback s [this]"




subsection \<open>consolidate and simplify\<close>

definition consolidate_callback :: "heap \<Rightarrow> addr \<Rightarrow> (unit, heap) result option" where
  "consolidate_callback h branch =
     (if isRoot h branch \<or> b_length h branch \<ge> 5 / 10000 then Some (Return () h)
      else case b_parent h branch of
        None \<Rightarrow> Some (Throw TypeError h)
      | Some p \<Rightarrow>
          (let h1 = (if b_id h p = [] then h\<lparr> b_id := (b_id h)(p := b_id h branch) \<rparr>
                     else h\<lparr> b_id := (b_id h)(p := b_id h p @ ''+'' @ b_id h branch) \<rparr>)
           in bind_res (excise h1 branch) (\<lambda>_ h2. Some (Return () h2))))"

definition consolidate :: "nat \<Rightarrow> heap \<Rightarrow> addr \<Rightarrow> (addr, heap) result option" where
  "consolidate fuel h this =
     bind_res (eachAfter fuel id consolidate_callback h this) (\<lambda>_ h1. fixDistances fuel h1 this)"

definition simplify_callback :: "heap \<Rightarrow> addr \<Rightarrow> (unit, heap) result option" where
  "simplify_callback h branch =
     (if length (b_children h branch) = 1
      then (let child = b_children h branch ! 0;
                h1 = (if b_id h child = [] then h\<lparr> b_id := (b_id h)(child := b_id h branch) \<rparr>
                      else h\<lparr> b_id := (b_id h)(child := b_id h branch @ ''+'' @ b_id h child) \<rparr>)
            in bind_res (excise h1 branch) (\<lambda>_ h2. Some (Return () h2)))
      else Some (Return () h))"

definition simplify :: "nat \<Rightarrow> heap \<Rightarrow> addr \<Rightarrow> (addr, heap) result option" where
  "simplify fuel h this =
     bind_res (eachAfter fuel id simplify_callback h this) (\<lambda>_ h1. fixDistances fuel h1 this)"

subsection \<open>Consistency and distances\<close>

text \<open>\<open>every\<close> stops at the first child that is not consistent.\<close>

primrec isConsistent :: "nat \<Rightarrow> heap \<Rightarrow> addr \<Rightarrow> bool option" where
  "isConsistent 0 h this = None"
| "isConsistent (Suc fuel) h this =
     (if (case b_parent h this of None \<Rightarrow> False | Some p \<Rightarrow> this \<notin> set (b_children h p))
      then Some False
      else if isLeaf h this then Some True
      else if list_ex (\<lambda>c. b_parent h c \<noteq> Some this) (b_children h this) then Some False
      else foldl (\<lambda>acc c. case acc of Some True \<Rightarrow> isConsistent fuel h c | _ \<Rightarrow> acc)
             (Some True) (b_children h this))"

text \<open>\<open>getDescendants\<close> reads only; its \<open>forEach\<close> runs over arrays nobody writes.\<close>

primrec getDescendants :: "nat \<Rightarrow> heap \<Rightarrow> bool \<Rightarrow> addr \<Rightarrow> addr list option" where
  "getDescendants 0 h includeSelf this = None"
| "getDescendants (Suc fuel) h includeSelf this =
     (case those (map (getDescendants fuel h True) (b_children h this)) of
        None \<Rightarrow> None
      | Some ds \<Rightarrow> Some ((if includeSelf then [this] else []) @ concat ds))"

definition hasDescendant :: "nat \<Rightarrow> heap \<Rightarrow> addr \<Rightarrow> addr \<Rightarrow> bool option" where
  "hasDescendant fuel h this descendant =
     map_option (\<lambda>ds. descendant \<in> set ds) (getDescendants fuel h False this)"

primrec getMRCA :: "nat \<Rightarrow> heap \<Rightarrow> addr \<Rightarrow> addr \<Rightarrow> (error + addr) option" where
  "getMRCA 0 h mrca cousin = None"
| "getMRCA (Suc fuel) h mrca cousin =
     (case hasDescendant (Suc fuel) h mrca cousin of
        None \<Rightarrow> None
      | Some True \<Rightarrow> Some (Inr mrca)
      | Some False \<Rightarrow>
          (case b_parent h mrca of
             None \<Rightarrow> Some (Inl NoCommonAncestor)
           | Some p \<Rightarrow> getMRCA fuel h p cousin))"

text \<open>
  The loop of \<open>depthOf\<close>. A step from a root sets \<open>current\<close> to null, and the next
  test reads \<open>null.length\<close>.
\<close>

primrec depthOf_loop :: "nat \<Rightarrow> heap \<Rightarrow> addr \<Rightarrow> addr \<Rightarrow> rat \<Rightarrow> (error + rat) option" where
  "depthOf_loop 0 h this current distance = None"
| "depthOf_loop (Suc fuel) h this current distance =
     (if current = this then Some (Inr distance)
      else case b_parent h current of
        None \<Rightarrow> Some (Inl TypeError)
      | Some p \<Rightarrow> depthOf_loop fuel h this p (distance + b_length h current))"

definition depthOf :: "nat \<Rightarrow> heap \<Rightarrow> addr \<Rightarrow> addr \<Rightarrow> (error + rat) option" where
  "depthOf fuel h this descendant = depthOf_loop fuel h this descendant 0"

definition distanceBetween :: "nat \<Rightarrow> heap \<Rightarrow> addr \<Rightarrow> addr \<Rightarrow> (error + rat) option" where
  "distanceBetween fuel h descendantA descendantB =
     (case getMRCA fuel h descendantA descendantB of
        None \<Rightarrow> None
      | Some (Inl e) \<Rightarrow> Some (Inl e)
      | Some (Inr mrca) \<Rightarrow>
          (case depthOf fuel h mrca descendantA of
             None \<Rightarrow> None
           | Some (Inl e) \<Rightarrow> Some (Inl e)
           | Some (Inr dA) \<Rightarrow>
               (case depthOf fuel h mrca descendantB of
                  None \<Rightarrow> None
                | Some (Inl e) \<Rightarrow> Some (Inl e)
                | Some (Inr dB) \<Rightarrow> Some (Inr (dA + dB)))))"

subsection \<open>Plain objects, clone and copy\<close>

text \<open>The plain-object form \<open>{id, length, children?}\<close>.\<close>

datatype obj = Obj string rat "obj list option"

primrec toObject :: "nat \<Rightarrow> heap \<Rightarrow> addr \<Rightarrow> obj option" where
  "toObject 0 h this = None"
| "toObject (Suc fuel) h this =
     (if length (b_children h this) > 0
      then (case those (map (toObject fuel h) (b_children h this)) of
              None \<Rightarrow> None
            | Some os \<Rightarrow> Some (Obj (b_id h this) (b_length h this) (Some os)))
      else Some (Obj (b_id h this) (b_length h this) None))"

fun parseJSON :: "nat \<Rightarrow> obj \<Rightarrow> heap \<Rightarrow> (addr, heap) result option"
  and parseJSON_children :: "nat \<Rightarrow> addr \<Rightarrow> obj list \<Rightarrow> heap \<Rightarrow> (unit, heap) result option" where
  "parseJSON fuel (Obj i l cs) h =
     (let (rt, h1) = Branch i l None [] h in
      bind_res (case cs of None \<Rightarrow> Some (Return () h1)
                | Some xs \<Rightarrow> parseJSON_children fuel rt xs h1)
        (\<lambda>_ h2. fixDistances fuel h2 rt))"
| "parseJSON_children fuel rt [] h = Some (Return () h)"
| "parseJSON_children fuel rt (x # xs) h =
     bind_res (parseJSON fuel x h) (\<lambda>c h1.
       parseJSON_children fuel rt xs (snd (addChild h1 rt c)))"

definition clone :: "nat \<Rightarrow> heap \<Rightarrow> addr \<Rightarrow> (addr, heap) result option" where
  "clone fuel h this =
     (case toObject fuel h this of None \<Rightarrow> None | Some json \<Rightarrow> parseJSON fuel json h)"

text \<open>
  \<open>copy\<close> goes through \<open>JSON.stringify\<close> and \<open>JSON.parse\<close>, whose composition is taken to
  be the identity on plain objects.
\<close>

definition copy :: "nat \<Rightarrow> heap \<Rightarrow> addr \<Rightarrow> (addr, heap) result option" where
  "copy fuel h this =
     (case toObject fuel h this of
        None \<Rightarrow> None
      | Some json \<Rightarrow>
          bind_res (parseJSON fuel json h) (\<lambda>newThis h1.
            fixDistances fuel (h1\<lparr> b_parent := (b_parent h1)(newThis := None) \<rparr>) newThis))"

subsection \<open>fixParenthood\<close>

primrec fixParenthood :: "nat \<Rightarrow> heap \<Rightarrow> addr \<Rightarrow> bool \<Rightarrow> (unit, heap) result option" where
  "fixParenthood 0 h this nonrecursive = None"
| "fixParenthood (Suc fuel) h this nonrecursive =
     forEach (\<lambda>s. b_children s this)
       (\<lambda>s child.
          (let s1 = s\<lparr> b_parent := (b_parent s)(child \<mapsto> this) \<rparr> in
           if \<not> nonrecursive \<and> length (b_children s1 child) > 0
           then fixParenthood fuel s1 child False
           else Some (Return () s1)))
       (length (b_children h this)) 0 h"

section \<open>Newick\<close>

text \<open>
  \<open>newick.split(/\s*(;|\(|\)|,|:)\s*/)\<close>. The pattern matches at a position when the
  white space from there on is followed by one of the five delimiters, and the match
  takes the white space after the delimiter too; \<open>split\<close> then yields the text before
  the match and the captured delimiter, and goes on after the match. The result
  alternates text and delimiters and ends with the text after the last match.
  Strings are lists of 8-bit characters here; of these, \<open>\s\<close> holds for the codes
  9 to 13, 32 and 160.
\<close>

definition is_space :: "char \<Rightarrow> bool" where
  "is_space c = (of_char c \<in> {9, 10, 11, 12, 13, 32, 160 :: nat})"

definition is_delim :: "char \<Rightarrow> bool" where
  "is_delim c = (c \<in> set '';(),:'')"

text \<open>
  \<open>split_tokens acc s\<close>: \<open>acc\<close> holds, reversed, the text since the last match, and
  \<open>s\<close> is what is left to scan.
\<close>

function split_tokens :: "string \<Rightarrow> string \<Rightarrow> string list" where
  "split_tokens acc [] = [rev acc]"
| "split_tokens acc (c # cs) =
     (case dropWhile is_space (c # cs) of
        [] \<Rightarrow> split_tokens (c # acc) cs
      | d # r \<Rightarrow> if is_delim d then rev acc # [d] # split_tokens [] (dropWhile is_space r)
                 else split_tokens (c # acc) cs)"
  by pat_completeness auto
termination
proof (relation "measure (\<lambda>(acc, s). length s)")
  show "wf (measure (\<lambda>(acc, s). length s))" by simp
next
  fix acc :: string and c cs
  show "((c # acc, cs), (acc, c # cs)) \<in> measure (\<lambda>(acc, s). length s)" by simp
next
  fix acc :: string and c cs d r
  assume d: "dropWhile is_space (c # cs) = d # r"
  have "length (dropWhile is_space r) \<le> length r" by (rule length_dropWhile_le)
  also have "length r < length (dropWhile is_space (c # cs))" using d by simp
  also have "\<dots> \<le> length (c # cs)" by (rule length_dropWhile_le)
  finally show "(([], dropWhile is_space r), (acc, c # cs)) \<in> measure (\<lambda>(acc, s). length s)"
    by simp
next
  fix acc :: string and c cs d r
  show "((c # acc, cs), (acc, c # cs)) \<in> measure (\<lambda>(acc, s). length s)" by simp
qed

definition split_newick :: "string \<Rightarrow> string list" where
  "split_newick s = split_tokens [] s"

text \<open>
  \<open>toNewick\<close>. \<open>Array.prototype.join\<close> and the recursion over the children, on fuel.
  \<open>numberToString\<close> rests on the conversion of a double to a string, which is not part
  of this code; it is a parameter. A length of 0 is falsy and is left out.
\<close>

fun join :: "string \<Rightarrow> string list \<Rightarrow> string" where
  "join sep [] = []"
| "join sep [x] = x"
| "join sep (x # y # ys) = x @ sep @ join sep (y # ys)"

fun those_list :: "'a option list \<Rightarrow> 'a list option" where
  "those_list [] = Some []"
| "those_list (None # xs) = None"
| "those_list (Some x # xs) = (case those_list xs of None \<Rightarrow> None | Some ys \<Rightarrow> Some (x # ys))"

primrec toNewick :: "nat \<Rightarrow> (rat \<Rightarrow> string) \<Rightarrow> heap \<Rightarrow> addr \<Rightarrow> bool \<Rightarrow> string option" where
  "toNewick 0 numberToString h this nonterminus = None"
| "toNewick (Suc fuel) numberToString h this nonterminus =
     (case (if \<not> isLeaf h this
            then (case those_list (map (\<lambda>child. toNewick fuel numberToString h child True)
                                   (b_children h this)) of
                    None \<Rightarrow> None
                  | Some strs \<Rightarrow> Some (''('' @ join '','' strs @ '')''))
            else Some []) of
        None \<Rightarrow> None
      | Some out1 \<Rightarrow>
          (let out2 = out1 @ b_id h this;
               out3 = (if b_length h this \<noteq> 0
                       then out2 @ '':'' @ numberToString (b_length h this) else out2)
           in Some (if \<not> nonterminus then out3 @ '';'' else out3)))"

text \<open>
  \<open>parseNewick\<close>. The state of the scan is the stack \<open>ancestors\<close>, the variable
  \<open>tree\<close>, which \<open>ancestors.pop()\<close> makes undefined (here \<open>None\<close>) on an empty stack,
  and the store. \<open>x\<close> is the token before the current one, undefined for the first.
  Calling \<open>addChild\<close> on undefined, or writing a field of it, is a TypeError.
  \<open>parseFloat\<close> is a parameter; where it yields NaN the result is \<open>None\<close>.
\<close>

type_synonym pstate = "addr list \<times> addr option \<times> heap"

definition parse_token ::
  "(string \<Rightarrow> rat option) \<Rightarrow> string option \<Rightarrow> string \<Rightarrow> pstate \<Rightarrow> (unit, pstate) result" where
  "parse_token parseFloat x token s =
     (let ancestors = fst s; tree = fst (snd s); h = snd (snd s) in
      if token = ''('' then
        (case tree of
           None \<Rightarrow> Throw TypeError s
         | Some tr \<Rightarrow>
             (let (c, h1) = addChild_data h tr [] 0
              in Return () (ancestors @ [tr], Some c, h1)))
      else if token = '','' then
        (if ancestors = [] then Throw TypeError s
         else (let (c, h1) = addChild_data h (last ancestors) [] 0
               in Return () (ancestors, Some c, h1)))
      else if token = '')'' then
        (if ancestors = [] then Return () ([], None, h)
         else Return () (butlast ancestors, Some (last ancestors), h))
      else if token = '':'' then Return () s
      else if x = Some '')'' \<or> x = Some ''('' \<or> x = Some '','' then
        (case tree of
           None \<Rightarrow> Throw TypeError s
         | Some tr \<Rightarrow> Return () (ancestors, tree, h\<lparr> b_id := (b_id h)(tr := token) \<rparr>))
      else if x = Some '':'' then
        (case tree of
           None \<Rightarrow> Throw TypeError s
         | Some tr \<Rightarrow>
             (case parseFloat token of
                None \<Rightarrow> Throw NotANumber s
              | Some v \<Rightarrow> Return () (ancestors, tree, h\<lparr> b_length := (b_length h)(tr := v) \<rparr>)))
      else Return () s)"

fun parse_loop ::
  "(string \<Rightarrow> rat option) \<Rightarrow> string option \<Rightarrow> string list \<Rightarrow> pstate \<Rightarrow> (unit, pstate) result" where
  "parse_loop parseFloat x [] s = Return () s"
| "parse_loop parseFloat x (token # rest) s =
     (case parse_token parseFloat x token s of
        Throw e s' \<Rightarrow> Throw e s'
      | Return _ s' \<Rightarrow> parse_loop parseFloat (Some token) rest s')"

definition parseNewick ::
  "nat \<Rightarrow> (string \<Rightarrow> rat option) \<Rightarrow> string \<Rightarrow> heap \<Rightarrow> (addr, heap) result option" where
  "parseNewick fuel parseFloat newick h =
     (let (tree0, h0) = Branch [] 0 None [] h;
          tokens = split_newick newick
      in case parse_loop parseFloat None tokens ([], Some tree0, h0) of
           Throw e s \<Rightarrow> Some (Throw e (snd (snd s)))
         | Return _ s \<Rightarrow>
             (case fst (snd s) of
                None \<Rightarrow> Some (Throw TypeError (snd (snd s)))
              | Some tr \<Rightarrow> fixDistances fuel (snd (snd s)) tr))"

section \<open>Neighbor joining\<close>

text \<open>
  The object \<open>that\<close> of \<open>parseMatrix\<close>. \<open>labelToNode\<close> is a sparse array of Branches,
  here a partial map; \<open>removedIndices\<close> is a set and \<open>indicesLeft\<close> a set in insertion
  order. The scratch arrays \<open>newRow\<close> and \<open>rowChange\<close> are written before they are
  read in every call of \<open>recalculateDistanceMatrix\<close> and are local to it here. The
  matrix is a list of rows; every read below is inside an \<open>N\<close> by \<open>N\<close> matrix.
\<close>

record nj =
  nj_N :: nat
  nj_cN :: nat
  nj_D :: "rat list list"
  nj_labels :: "string list"
  nj_currIndexToLabel :: "int list"
  nj_labelToNode :: "int \<Rightarrow> addr option"
  nj_nextIndex :: nat
  nj_I :: "nat list list"
  nj_S :: "rat list list"
  nj_removedIndices :: "nat set"
  nj_indicesLeft :: "nat list"
  nj_rowSums :: "rat list"
  nj_rowSumMax :: rat

text \<open>
  \<open>sortWithIndices\<close>: the indices whose entry is not -1, without \<open>skip\<close>, in a stable
  ascending order of their entries, and the entries in that order.
\<close>

definition sortWithIndices :: "rat list \<Rightarrow> nat \<Rightarrow> rat list \<times> nat list" where
  "sortWithIndices toSort skip =
     (let indexCopy = sort_key (\<lambda>i. toSort ! i)
            (filter (\<lambda>i. toSort ! i \<noteq> - 1 \<and> i \<noteq> skip) [0..<length toSort])
      in (map (\<lambda>i. toSort ! i) indexCopy, indexCopy))"

definition sumRows :: "rat list list \<Rightarrow> rat list" where
  "sumRows a = map (\<lambda>i. foldl (\<lambda>sum j. sum + a ! i ! j) 0 [0..<length a]) [0..<length a]"

definition nj_init :: "rat list list \<Rightarrow> string list \<Rightarrow> nj" where
  "nj_init matrix labels =
     (let N = length matrix;
          sorted = map (\<lambda>i. sortWithIndices (matrix ! i) i) [0..<N];
          rowSums = sumRows matrix
      in \<lparr> nj_N = N, nj_cN = N, nj_D = matrix, nj_labels = labels,
           nj_currIndexToLabel = map int [0..<N],
           nj_labelToNode = (\<lambda>_. None),
           nj_nextIndex = N,
           nj_I = map snd sorted,
           nj_S = map fst sorted,
           nj_removedIndices = {},
           nj_indicesLeft = [0..<N],
           nj_rowSums = rowSums,
           nj_rowSumMax = foldl (\<lambda>m i. if rowSums ! i > m then rowSums ! i else m) 0 [0..<N] \<rparr>)"

text \<open>
  \<open>search\<close>. The running minimum \<open>qMin\<close> starts at Infinity, here \<open>None\<close>; \<open>minI\<close>
  and \<open>minJ\<close> start at -1. A row with an empty index list yields a NaN in the first
  loop, which no comparison accepts.
\<close>

type_synonym best = "rat option \<times> int \<times> int"

definition q_value :: "nj \<Rightarrow> nat \<Rightarrow> nat \<Rightarrow> rat" where
  "q_value t r c2 =
     nj_D t ! r ! c2 * (rat_of_nat (nj_cN t) - 2) - nj_rowSums t ! r - nj_rowSums t ! c2"

definition improve :: "nj \<Rightarrow> nat \<Rightarrow> nat \<Rightarrow> best \<Rightarrow> best" where
  "improve t r c2 b =
     (let q = q_value t r c2 in
      case fst b of
        None \<Rightarrow> (Some q, int r, int c2)
      | Some qMin \<Rightarrow> if q < qMin then (Some q, int r, int c2) else b)"

definition search_guess :: "nj \<Rightarrow> best \<Rightarrow> nat \<Rightarrow> best" where
  "search_guess t b r =
     (if r \<in> nj_removedIndices t then b
      else case nj_I t ! r of
        [] \<Rightarrow> b
      | c2 # _ \<Rightarrow> if c2 \<in> nj_removedIndices t then b else improve t r c2 b)"

fun search_row :: "nj \<Rightarrow> nat \<Rightarrow> (rat \<times> nat) list \<Rightarrow> best \<Rightarrow> best" where
  "search_row t r [] b = b"
| "search_row t r ((s, c2) # rest) b =
     (if c2 \<in> nj_removedIndices t then search_row t r rest b
      else if (case fst b of
                 None \<Rightarrow> False
               | Some qMin \<Rightarrow>
                   s * (rat_of_nat (nj_cN t) - 2) - nj_rowSums t ! r - nj_rowSumMax t > qMin)
           then b
      else search_row t r rest (improve t r c2 b))"

definition search_scan :: "nj \<Rightarrow> best \<Rightarrow> nat \<Rightarrow> best" where
  "search_scan t b r =
     (if r \<in> nj_removedIndices t then b
      else search_row t r (zip (nj_S t ! r) (nj_I t ! r)) b)"

definition search :: "nj \<Rightarrow> int \<times> int" where
  "search t =
     (let b1 = foldl (search_guess t) (None, - 1, - 1) [0..<nj_N t];
          b2 = foldl (search_scan t) b1 [0..<nj_N t]
      in snd b2)"

text \<open>\<open>recalculateDistanceMatrix\<close>.\<close>

definition newRow :: "rat list list \<Rightarrow> nat \<Rightarrow> nat \<Rightarrow> nat \<Rightarrow> rat" where
  "newRow D joinedIndex1 joinedIndex2 i =
     (1 / 2) * ((D ! joinedIndex1 ! i + D ! joinedIndex2 ! i) - D ! joinedIndex1 ! joinedIndex2)"

definition rowChange :: "rat list list \<Rightarrow> nat \<Rightarrow> nat \<Rightarrow> nat \<Rightarrow> rat" where
  "rowChange D joinedIndex1 joinedIndex2 i =
     - (1 / 2) * ((D ! joinedIndex1 ! i + D ! joinedIndex2 ! i) + D ! joinedIndex1 ! joinedIndex2)"

definition set_cell :: "rat list list \<Rightarrow> nat \<Rightarrow> nat \<Rightarrow> rat \<Rightarrow> rat list list" where
  "set_cell D a b v = D[a := (D ! a)[b := v]]"

text \<open>
  One pass of the second loop of \<open>recalculateDistanceMatrix\<close>, on the matrix, the row
  sums and \<open>newMax\<close>; \<open>D0\<close> is the matrix before the loop, from which \<open>newRow\<close> and
  \<open>rowChange\<close> were filled by the first loop.
\<close>

definition recalc_step ::
  "rat list list \<Rightarrow> nat \<Rightarrow> nat \<Rightarrow> nat set \<Rightarrow> rat list list \<times> rat list \<times> rat \<Rightarrow> nat
     \<Rightarrow> rat list list \<times> rat list \<times> rat" where
  "recalc_step D0 joinedIndex1 joinedIndex2 removedIndices acc i =
     (let D = fst acc; rowSums = fst (snd acc); newMax = snd (snd acc);
          D1 = set_cell D joinedIndex1 i (- 1);
          D2 = set_cell D1 i joinedIndex1 (- 1)
      in if i \<in> removedIndices then (D2, rowSums, newMax)
         else (let D3 = set_cell D2 joinedIndex2 i (newRow D0 joinedIndex1 joinedIndex2 i);
                   D4 = set_cell D3 i joinedIndex2 (newRow D0 joinedIndex1 joinedIndex2 i);
                   rs = rowSums[i := rowSums ! i + rowChange D0 joinedIndex1 joinedIndex2 i]
               in (D4, rs, if rs ! i > newMax then rs ! i else newMax)))"

definition recalculateDistanceMatrix :: "nj \<Rightarrow> nat \<Rightarrow> nat \<Rightarrow> nj" where
  "recalculateDistanceMatrix t joinedIndex1 joinedIndex2 =
     (let D0 = nj_D t;
          n = length D0;
          removedIndices = insert joinedIndex1 (nj_removedIndices t);
          sum = foldl (\<lambda>sum i. if i \<in> removedIndices then sum
                                 else sum + newRow D0 joinedIndex1 joinedIndex2 i) 0 [0..<n];
          acc = foldl (recalc_step D0 joinedIndex1 joinedIndex2 removedIndices)
                  (D0, nj_rowSums t, 0) [0..<n];
          rowSums2 = (fst (snd acc))[joinedIndex1 := 0, joinedIndex2 := sum]
      in t\<lparr> nj_D := fst acc,
             nj_removedIndices := removedIndices,
             nj_rowSums := rowSums2,
             nj_rowSumMax := (if sum > snd (snd acc) then sum else snd (snd acc)),
             nj_indicesLeft := filter (\<lambda>k. k \<noteq> joinedIndex1) (nj_indicesLeft t) \<rparr>)"

text \<open>
  \<open>setUpNode\<close>: a label below \<open>N\<close> gets a new leaf Branch, which is recorded; a label
  from \<open>N\<close> on names a Branch joined earlier, whose length is set. A label that names no
  Branch makes \<open>node.setLength\<close> a TypeError.
\<close>

definition setUpNode :: "nj \<times> heap \<Rightarrow> int \<Rightarrow> rat \<Rightarrow> (addr, nj \<times> heap) result" where
  "setUpNode s labelIndex distance =
     (let t = fst s; h = snd s in
      if labelIndex < int (nj_N t)
      then (let ident = (if 0 \<le> labelIndex \<and> nat labelIndex < length (nj_labels t)
                         then nj_labels t ! nat labelIndex else []);
                (node, h1) = Branch ident distance None [] h
            in Return node (t\<lparr> nj_labelToNode := (nj_labelToNode t)(labelIndex \<mapsto> node) \<rparr>, h1))
      else case nj_labelToNode t labelIndex of
             None \<Rightarrow> Throw TypeError s
           | Some node \<Rightarrow> Return node (t, h\<lparr> b_length := (b_length h)(node := distance) \<rparr>))"

text \<open>
  One pass of the body of \<open>while (that.cN > 2)\<close>. When \<open>search\<close> finds no pair,
  \<open>minI\<close> is -1 and reading \<open>that.D[minI][minJ]\<close> is a TypeError.
\<close>

definition nj_iteration :: "nj \<times> heap \<Rightarrow> (unit, nj \<times> heap) result" where
  "nj_iteration s =
     (let t = fst s; (minI, minJ) = search t in
      if minI < 0 then Throw TypeError s
      else
       (let i = nat minI; j = nat minJ;
            d1 = (1 / 2) * nj_D t ! i ! j
                 + (nj_rowSums t ! i - nj_rowSums t ! j) / (2 * rat_of_nat (nj_cN t) - 4);
            d2 = nj_D t ! i ! j - d1;
            l1 = nj_currIndexToLabel t ! i;
            l2 = nj_currIndexToLabel t ! j
        in case setUpNode s l1 d1 of
             Throw e s' \<Rightarrow> Throw e s'
           | Return node1 s1 \<Rightarrow>
              (case setUpNode s1 l2 d2 of
                 Throw e s' \<Rightarrow> Throw e s'
               | Return node2 s2 \<Rightarrow>
                  (let (node3, h3) = Branch [] 0 None [node1, node2] (snd s2);
                       t3 = recalculateDistanceMatrix (fst s2) i j;
                       sorted = sortWithIndices (nj_D t3 ! j) j;
                       t4 = t3\<lparr> nj_S := (nj_S t3)[j := fst sorted, i := []],
                                nj_I := (nj_I t3)[j := snd sorted, i := []],
                                nj_cN := nj_cN t3 - 1,
                                nj_labelToNode :=
                                  (nj_labelToNode t3)(int (nj_nextIndex t3) \<mapsto> node3),
                                nj_currIndexToLabel :=
                                  (nj_currIndexToLabel t3)[i := - 1, j := int (nj_nextIndex t3)],
                                nj_nextIndex := Suc (nj_nextIndex t3) \<rparr>
                   in Return () (t4, h3)))))"

text \<open>
  After the loop: the first two of \<open>indicesLeft\<close> are joined under a new root, each
  with half their distance. With no index left, reading \<open>that.D[minI]\<close> is a TypeError
  before anything is built. With one index left the distance is NaN: a label below \<open>N\<close>
  gets a new leaf, whose length \<open>NaN || 0\<close> is 0, and the second \<open>setUpNode\<close>, on the
  label \<open>undefined\<close>, is a TypeError; a label from \<open>N\<close> on would have its Branch take
  the length NaN.
\<close>

definition nj_join_last :: "nj \<times> heap \<Rightarrow> (addr, nj \<times> heap) result" where
  "nj_join_last s =
     (let t = fst s in
      case nj_indicesLeft t of
        [] \<Rightarrow> Throw TypeError s
      | [minI] \<Rightarrow>
          (let l1 = nj_currIndexToLabel t ! minI in
           if l1 < int (nj_N t)
           then (case setUpNode s l1 0 of
                   Throw e s' \<Rightarrow> Throw e s'
                 | Return _ s1 \<Rightarrow> Throw TypeError s1)
           else (case nj_labelToNode t l1 of
                   None \<Rightarrow> Throw TypeError s
                 | Some _ \<Rightarrow> Throw NotANumber s))
      | minI # minJ # _ \<Rightarrow>
          (let l1 = nj_currIndexToLabel t ! minI;
               l2 = nj_currIndexToLabel t ! minJ;
               d = nj_D t ! minI ! minJ / 2
           in case setUpNode s l1 d of
                Throw e s' \<Rightarrow> Throw e s'
              | Return node1 s1 \<Rightarrow>
                 (case setUpNode s1 l2 d of
                    Throw e s' \<Rightarrow> Throw e s'
                  | Return node2 s2 \<Rightarrow>
                     (let (tree, h3) = Branch [] 0 None [node1, node2] (snd s2)
                      in Return tree (fst s2, h3)))))"

text \<open>The loop ends because every pass that returns lowers \<open>cN\<close> by one.\<close>

lemma setUpNode_cN: "setUpNode s l d = Return node s' \<Longrightarrow> nj_cN (fst s') = nj_cN (fst s)"
  by (auto simp: setUpNode_def Let_def Branch_def split: if_splits option.splits)

lemma recalculateDistanceMatrix_cN: "nj_cN (recalculateDistanceMatrix t i j) = nj_cN t"
  by (simp add: recalculateDistanceMatrix_def Let_def)

lemma nj_iteration_cN:
  assumes "nj_iteration s = Return x s'"
  shows "nj_cN (fst s') = nj_cN (fst s) - 1"
proof -
  obtain minI minJ where m: "search (fst s) = (minI, minJ)" by (cases "search (fst s)")
  from assms m have nn: "\<not> minI < 0"
    by (auto simp: nj_iteration_def Let_def)
  let ?i = "nat minI" and ?j = "nat minJ"
  let ?d1 = "(1 / 2) * nj_D (fst s) ! ?i ! ?j
       + (nj_rowSums (fst s) ! ?i - nj_rowSums (fst s) ! ?j) / (2 * rat_of_nat (nj_cN (fst s)) - 4)"
  from assms m nn obtain node1 s1 where
    1: "setUpNode s (nj_currIndexToLabel (fst s) ! ?i) ?d1 = Return node1 s1"
    by (auto simp: nj_iteration_def Let_def split: result.splits)
  from assms m nn 1 obtain node2 s2 where
    2: "setUpNode s1 (nj_currIndexToLabel (fst s) ! ?j) (nj_D (fst s) ! ?i ! ?j - ?d1) = Return node2 s2"
    by (auto simp: nj_iteration_def Let_def split: result.splits)
  from assms m nn 1 2 have "nj_cN (fst s') = nj_cN (recalculateDistanceMatrix (fst s2) ?i ?j) - 1"
    by (auto simp: nj_iteration_def Let_def split: prod.splits)
  with setUpNode_cN [OF 1] setUpNode_cN [OF 2] show ?thesis
    by (simp add: recalculateDistanceMatrix_cN)
qed

function nj_loop :: "nj \<times> heap \<Rightarrow> (unit, nj \<times> heap) result" where
  "nj_loop s =
     (if nj_cN (fst s) > 2
      then (case nj_iteration s of
              Throw e s' \<Rightarrow> Throw e s'
            | Return _ s' \<Rightarrow> nj_loop s')
      else Return () s)"
  by pat_completeness auto
termination
proof (relation "measure (\<lambda>s. nj_cN (fst s))")
  show "wf (measure (\<lambda>s. nj_cN (fst s)))" by simp
next
  fix s :: "nj \<times> heap" and x s'
  assume "2 < nj_cN (fst s)" and "nj_iteration s = Return x s'"
  with nj_iteration_cN [of s x s'] show "(s', s) \<in> measure (\<lambda>s. nj_cN (fst s))" by simp
qed

text \<open>\<open>parseMatrix\<close>, with explicit labels.\<close>

definition parseMatrix ::
  "nat \<Rightarrow> rat list list \<Rightarrow> string list \<Rightarrow> heap \<Rightarrow> (addr, heap) result option" where
  "parseMatrix fuel matrix labels h =
     (case nj_loop (nj_init matrix labels, h) of
        Throw e s \<Rightarrow> Some (Throw e (snd s))
      | Return _ s \<Rightarrow>
          (case nj_join_last s of
             Throw e s' \<Rightarrow> Some (Throw e (snd s'))
           | Return tree s' \<Rightarrow>
               bind_res (fixParenthood fuel (snd s') tree False) (\<lambda>_ h1.
                 fixDistances fuel h1 tree)))"



subsection \<open>The state of neighbor joining between passes\<close>









section \<open>Trees laid out in the store\<close>

text \<open>
  An address tree names the Branches of a tree and their nesting. \<open>shape\<close> says that
  the children arrays of the store are the ones of the address tree, \<open>parents_ok\<close> that
  every child points back to its parent. A store holds a well-formed tree when both hold
  and no address occurs twice.
\<close>

datatype atree = ANode addr "atree list"

primrec a_root :: "atree \<Rightarrow> addr" where
  "a_root (ANode a ts) = a"

primrec a_kids :: "atree \<Rightarrow> atree list" where
  "a_kids (ANode a ts) = ts"

primrec a_nodes :: "atree \<Rightarrow> addr list" where
  "a_nodes (ANode a ts) = a # concat (map a_nodes ts)"

primrec a_post :: "atree \<Rightarrow> addr list" where
  "a_post (ANode a ts) = concat (map a_post ts) @ [a]"

primrec a_height :: "atree \<Rightarrow> nat" where
  "a_height (ANode a ts) = Suc (foldr max (map a_height ts) 0)"

fun shape :: "heap \<Rightarrow> atree \<Rightarrow> bool" where
  "shape h (ANode a ts) = (b_children h a = map a_root ts \<and> (\<forall>t \<in> set ts. shape h t))"

fun parents_ok :: "heap \<Rightarrow> atree \<Rightarrow> bool" where
  "parents_ok h (ANode a ts) = (\<forall>t \<in> set ts. b_parent h (a_root t) = Some a \<and> parents_ok h t)"

definition is_tree :: "heap \<Rightarrow> atree \<Rightarrow> bool" where
  "is_tree h t = (shape h t \<and> parents_ok h t \<and> distinct (a_nodes t))"

subsection \<open>The callbacks of fixDistances and sum as state transformers\<close>

text \<open>
  What one call of each callback does to the state, and the relations that describe the
  fields after a whole traversal: \<open>depth_post\<close> for the depths and the running maximum
  over a set of visited nodes, \<open>value_post\<close> for the values.
\<close>

definition before_step :: "heap \<times> int \<Rightarrow> addr \<Rightarrow> heap \<times> int" where
  "before_step s d =
     (case b_parent (fst s) d of
        None \<Rightarrow> s
      | Some p \<Rightarrow>
          ((fst s)\<lparr> b_depth := (b_depth (fst s))(d := b_depth (fst s) p + 1) \<rparr>,
           max (snd s) (b_depth (fst s) p + 1)))"

definition after_step :: "heap \<times> int \<Rightarrow> addr \<Rightarrow> heap \<times> int" where
  "after_step s d =
     ((fst s)\<lparr> b_height := (b_height (fst s))(d := snd s - b_depth (fst s) d),
               b_value := (b_value (fst s))
                 (d := b_value (fst s) d + sum_list (map (b_value (fst s)) (b_children (fst s) d))) \<rparr>,
      snd s)"


definition depth_post :: "heap \<Rightarrow> addr set \<Rightarrow> (addr \<Rightarrow> int) \<Rightarrow> int \<Rightarrow> int \<Rightarrow> bool" where
  "depth_post h F dp m m' =
     ((\<forall>x. x \<notin> F \<longrightarrow> dp x = b_depth h x) \<and>
      (\<forall>x\<in>F. \<exists>q. b_parent h x = Some q \<and> dp x = dp q + 1) \<and>
      m \<le> m' \<and> (\<forall>x\<in>F. dp x \<le> m') \<and> (m' = m \<or> m' \<in> dp ` F))"

definition value_post :: "(rat \<Rightarrow> rat) \<Rightarrow> heap \<Rightarrow> addr set \<Rightarrow> (addr \<Rightarrow> rat) \<Rightarrow> bool" where
  "value_post g h F vv =
     ((\<forall>x. x \<notin> F \<longrightarrow> vv x = b_value h x) \<and>
      (\<forall>x\<in>F. vv x = g (b_value h x) + sum_list (map vv (b_children h x))))"

subsection \<open>Ranks and the invariant of simplify\<close>

text \<open>
  The rank of a node is the height of its subtree. While \<open>simplify\<close> moves nodes up,
  ranks still fall along the children arrays and rise along the parent links, the root
  \<open>r\<close> keeps its null parent and its single child, and no children array holds \<open>r\<close>.
\<close>

primrec a_rank :: "atree \<Rightarrow> addr \<Rightarrow> nat" where
  "a_rank (ANode a ts) x =
     (if x = a then Suc (foldr max (map a_height ts) 0)
      else foldr max (map (\<lambda>u. a_rank u x) ts) 0)"

definition simplify_inv :: "addr set \<Rightarrow> (addr \<Rightarrow> nat) \<Rightarrow> addr \<Rightarrow> heap \<Rightarrow> bool" where
  "simplify_inv N rank r h =
     ((\<forall>x\<in>N. 0 < rank x) \<and>
      (\<forall>x\<in>N. \<forall>c\<in>set (b_children h x). c \<in> N \<and> c \<noteq> r \<and> rank c < rank x) \<and>
      (\<forall>x\<in>N. x \<noteq> r \<longrightarrow> (\<exists>p\<in>N. b_parent h x = Some p \<and> rank x < rank p)) \<and>
      b_parent h r = None \<and>
      length (b_children h r) = 1)"

section \<open>Newick: the text of a tree and the store after a scan\<close>

text \<open>
  The ids, lengths and children of a tree laid out in the store, as a value:
  \<open>content h t\<close>.
\<close>

datatype ntree = NNode string rat "ntree list"

fun content :: "heap \<Rightarrow> atree \<Rightarrow> ntree" where
  "content h (ANode a ts) = NNode (b_id h a) (b_length h a) (map (content h) ts)"

text \<open>
  A text is \<open>clean\<close> when it holds none of the five delimiters and neither begins nor
  ends with white space: \<open>split\<close> returns such a text as one token. \<open>newick_ok\<close>: every
  id of the tree is clean, and every length other than 0 is printed as a clean text
  that is read back as the same number.
\<close>

definition clean :: "string \<Rightarrow> bool" where
  "clean s = ((\<forall>c\<in>set s. \<not> is_delim c) \<and> (s \<noteq> [] \<longrightarrow> \<not> is_space (hd s) \<and> \<not> is_space (last s)))"

fun newick_ok :: "(rat \<Rightarrow> string) \<Rightarrow> (string \<Rightarrow> rat option) \<Rightarrow> ntree \<Rightarrow> bool" where
  "newick_ok numberToString parseFloat (NNode i l ts) =
     (clean i \<and>
      (l \<noteq> 0 \<longrightarrow> clean (numberToString l) \<and> parseFloat (numberToString l) = Some l) \<and>
      (\<forall>c\<in>set ts. newick_ok numberToString parseFloat c))"

text \<open>
  The text of a tree, cut at its delimiters: the text before the first delimiter,
  \<open>head_text\<close>, and then the delimiters in order, each with the text that follows it,
  \<open>pairs\<close>. \<open>flatp\<close> is the string of such a list, \<open>toks\<close> its list of tokens, and
  \<open>str\<close> the whole text of a tree, without the final semicolon.
\<close>

fun head_text :: "ntree \<Rightarrow> string" where
  "head_text (NNode i l ts) = (if ts = [] then i else [])"

fun pairs :: "(rat \<Rightarrow> string) \<Rightarrow> ntree \<Rightarrow> (char \<times> string) list"
  and kid_pairs :: "(rat \<Rightarrow> string) \<Rightarrow> char \<Rightarrow> ntree list \<Rightarrow> (char \<times> string) list" where
  "pairs ns (NNode i l ts) =
     (if ts = [] then [] else kid_pairs ns (CHR ''('') ts @ [(CHR '')'', i)])
     @ (if l \<noteq> 0 then [(CHR '':'', ns l)] else [])"
| "kid_pairs ns d [] = []"
| "kid_pairs ns d (c # cs) = (d, head_text c) # pairs ns c @ kid_pairs ns (CHR '','') cs"

definition flatp :: "(char \<times> string) list \<Rightarrow> string" where
  "flatp ps = concat (map (\<lambda>(d, t). d # t) ps)"

definition toks :: "(char \<times> string) list \<Rightarrow> string list" where
  "toks ps = concat (map (\<lambda>(d, t). [[d], t]) ps)"

definition str :: "(rat \<Rightarrow> string) \<Rightarrow> ntree \<Rightarrow> string" where
  "str ns T = head_text T @ flatp (pairs ns T)"

definition clean_pairs :: "(char \<times> string) list \<Rightarrow> bool" where
  "clean_pairs ps = (\<forall>(d, t)\<in>set ps. is_delim d \<and> clean t)"

text \<open>
  What the scan of \<open>parseNewick\<close> over the tokens of a tree does to the store when
  \<open>tree\<close> is the Branch \<open>a\<close> and the head text has been read: \<open>fill_node\<close>; and over
  the tokens of a list of children of \<open>a\<close>: \<open>fill_kids\<close>.
\<close>

fun fill_node :: "ntree \<Rightarrow> addr \<Rightarrow> heap \<Rightarrow> heap"
  and fill_kids :: "ntree list \<Rightarrow> addr \<Rightarrow> heap \<Rightarrow> heap" where
  "fill_node (NNode i l ts) a h =
     (let h1 = (if ts = [] then h
                else (let h' = fill_kids ts a h in h'\<lparr> b_id := (b_id h')(a := i) \<rparr>))
      in if l \<noteq> 0 then h1\<lparr> b_length := (b_length h1)(a := l) \<rparr> else h1)"
| "fill_kids [] a h = h"
| "fill_kids (c # cs) a h =
     (let (c', h1) = addChild_data h a [] 0;
          h2 = h1\<lparr> b_id := (b_id h1)(c' := head_text c) \<rparr>
      in fill_kids cs a (fill_node c c' h2))"

text \<open>
  \<open>textual x\<close>: the token before the current one is none of the tokens that make the
  current one an id or a length. \<open>entry\<close>: the state in which the scan meets the
  delimiter before a child of \<open>a\<close>.
\<close>

definition textual :: "string option \<Rightarrow> bool" where
  "textual x = (x \<noteq> Some '')'' \<and> x \<noteq> Some ''('' \<and> x \<noteq> Some '','' \<and> x \<noteq> Some '':'')"

definition entry :: "char \<Rightarrow> addr list \<Rightarrow> addr option \<Rightarrow> addr list \<Rightarrow> addr \<Rightarrow> bool" where
  "entry d anc' tr anc a =
     ((d = CHR ''('' \<and> anc' = anc \<and> tr = Some a) \<or> (d = CHR '','' \<and> anc' = anc @ [a]))"

text \<open>
  The Branches of the parsed tree are allocated in the order of the text:
  \<open>built T a n\<close> is the tree with root \<open>a\<close> whose other nodes are the addresses from
  \<open>n\<close> on. \<open>frame n a h h'\<close>: the Branches below \<open>n\<close> other than \<open>a\<close> are the same in
  \<open>h\<close> and \<open>h'\<close>. \<open>kids_post\<close> and \<open>node_post\<close> say what \<open>fill_kids\<close> and
  \<open>fill_node\<close> leave in the store.
\<close>

fun nsize :: "ntree \<Rightarrow> nat" where
  "nsize (NNode i l ts) = Suc (sum_list (map nsize ts))"

fun built :: "ntree \<Rightarrow> addr \<Rightarrow> nat \<Rightarrow> atree"
  and builts :: "ntree list \<Rightarrow> nat \<Rightarrow> atree list" where
  "built (NNode i l ts) a n = ANode a (builts ts n)"
| "builts [] n = []"
| "builts (c # cs) n = built c n (Suc n) # builts cs (n + nsize c)"

definition frame :: "nat \<Rightarrow> addr \<Rightarrow> heap \<Rightarrow> heap \<Rightarrow> bool" where
  "frame n a h h' =
     (\<forall>x. x < n \<longrightarrow> x \<noteq> a \<longrightarrow>
        b_children h' x = b_children h x \<and> b_parent h' x = b_parent h x \<and>
        b_id h' x = b_id h x \<and> b_length h' x = b_length h x)"

definition kids_post :: "ntree list \<Rightarrow> addr \<Rightarrow> heap \<Rightarrow> heap \<Rightarrow> bool" where
  "kids_post cs a h0 h' =
     (next_addr h' = next_addr h0 + sum_list (map nsize cs) \<and>
      b_children h' a = b_children h0 a @ map a_root (builts cs (next_addr h0)) \<and>
      (\<forall>u\<in>set (builts cs (next_addr h0)).
         shape h' u \<and> parents_ok h' u \<and> b_parent h' (a_root u) = Some a) \<and>
      map (content h') (builts cs (next_addr h0)) = cs \<and>
      concat (map a_nodes (builts cs (next_addr h0)))
        = [next_addr h0 ..< next_addr h0 + sum_list (map nsize cs)] \<and>
      frame (next_addr h0) a h0 h' \<and>
      b_parent h' a = b_parent h0 a \<and> b_id h' a = b_id h0 a \<and> b_length h' a = b_length h0 a)"

definition node_post :: "ntree \<Rightarrow> addr \<Rightarrow> heap \<Rightarrow> heap \<Rightarrow> bool" where
  "node_post T a h h' =
     (next_addr h' = next_addr h + (nsize T - 1) \<and>
      shape h' (built T a (next_addr h)) \<and> parents_ok h' (built T a (next_addr h)) \<and>
      content h' (built T a (next_addr h)) = T \<and>
      a_nodes (built T a (next_addr h)) = a # [next_addr h ..< next_addr h + (nsize T - 1)] \<and>
      frame (next_addr h) a h h' \<and> b_parent h' a = b_parent h a)"

section \<open>Example stores\<close>

text \<open>
  The tree of \<open>(A:1,B:2,(C:3,D:4):5);\<close>: the root is 0, A is 1, B is 2, the inner
  Branch is 3, C is 4 and D is 5.
\<close>

definition tree_ABCD :: heap where
  "tree_ABCD =
     \<lparr> b_id = (\<lambda>_. [])(1 := ''A'', 2 := ''B'', 4 := ''C'', 5 := ''D''),
       b_length = (\<lambda>_. 0)(1 := 1, 2 := 2, 3 := 5, 4 := 3, 5 := 4),
       b_parent = (\<lambda>_. None)(1 := Some 0, 2 := Some 0, 3 := Some 0, 4 := Some 3, 5 := Some 3),
       b_children = (\<lambda>_. [])(0 := [1, 2, 3], 3 := [4, 5]),
       b_depth = (\<lambda>_. 0), b_height = (\<lambda>_. 0),
       b_value = (\<lambda>_. 1), next_addr = 6 \<rparr>"

definition tree_ABCD_shape :: atree where
  "tree_ABCD_shape = ANode 0 [ANode 1 [], ANode 2 [], ANode 3 [ANode 4 [], ANode 5 []]]"

text \<open>A root P (0) with one child C (1), and a separate root Q (2).\<close>

definition two_roots :: heap where
  "two_roots =
     \<lparr> b_id = (\<lambda>_. [])(0 := ''P'', 1 := ''C'', 2 := ''Q''),
       b_length = (\<lambda>_. 0)(1 := 1),
       b_parent = (\<lambda>_. None)(1 := Some 0),
       b_children = (\<lambda>_. [])(0 := [1]),
       b_depth = (\<lambda>_. 0)(1 := 1), b_height = (\<lambda>_. 0)(0 := 1),
       b_value = (\<lambda>_. 1)(0 := 2), next_addr = 3 \<rparr>"

text \<open>A root R (0) with two leaves A (1) and B (2), both of length 0.\<close>

definition zero_siblings :: heap where
  "zero_siblings =
     \<lparr> b_id = (\<lambda>_. [])(0 := ''R'', 1 := ''A'', 2 := ''B''),
       b_length = (\<lambda>_. 0),
       b_parent = (\<lambda>_. None)(1 := Some 0, 2 := Some 0),
       b_children = (\<lambda>_. [])(0 := [1, 2]),
       b_depth = (\<lambda>_. 0)(1 := 1, 2 := 1), b_height = (\<lambda>_. 0)(0 := 1),
       b_value = (\<lambda>_. 1)(0 := 3), next_addr = 3 \<rparr>"

text \<open>A root R (0) whose only child X (1) has the leaves A (2) and B (3).\<close>

definition one_child_root :: heap where
  "one_child_root =
     \<lparr> b_id = (\<lambda>_. [])(0 := ''R'', 1 := ''X'', 2 := ''A'', 3 := ''B''),
       b_length = (\<lambda>_. 0)(1 := 1, 2 := 2, 3 := 3),
       b_parent = (\<lambda>_. None)(1 := Some 0, 2 := Some 1, 3 := Some 1),
       b_children = (\<lambda>_. [])(0 := [1], 1 := [2, 3]),
       b_depth = (\<lambda>_. 0)(1 := 1, 2 := 2, 3 := 2), b_height = (\<lambda>_. 0)(0 := 2, 1 := 1),
       b_value = (\<lambda>_. 1)(0 := 4, 1 := 3), next_addr = 4 \<rparr>"

definition one_child_root_shape :: atree where
  "one_child_root_shape = ANode 0 [ANode 1 [ANode 2 [], ANode 3 []]]"

text \<open>A printer and a reader for the lengths 1 to 5 of the tree above.\<close>

definition digit_string :: "rat \<Rightarrow> string" where
  "digit_string x =
     (if x = 1 then ''1'' else if x = 2 then ''2'' else if x = 3 then ''3''
      else if x = 4 then ''4'' else ''5'')"

definition digit_value :: "string \<Rightarrow> rat option" where
  "digit_value s =
     (if s = ''1'' then Some 1 else if s = ''2'' then Some 2 else if s = ''3'' then Some 3
      else if s = ''4'' then Some 4 else if s = ''5'' then Some 5 else None)"

text \<open>A store with one Branch: a root without children, with the id A and length 0.\<close>

definition lone_leaf :: heap where
  "lone_leaf =
     \<lparr> b_id = (\<lambda>_. [])(0 := ''A''), b_length = (\<lambda>_. 0), b_parent = (\<lambda>_. None),
       b_children = (\<lambda>_. []), b_depth = (\<lambda>_. 0), b_height = (\<lambda>_. 0),
       b_value = (\<lambda>_. 0)(0 := 1), next_addr = 1 \<rparr>"

section \<open>excise on a root with several children\<close>

text \<open>
  C5: on a root with more than one child \<open>excise\<close> throws the structural error, and the
  store in which it throws is the store it was called in.
\<close>

theorem excise_multi_child_root_throws:
  "isRoot h r \<Longrightarrow> length (b_children h r) > 1 \<Longrightarrow> excise h r = Some (Throw ExciseRootError h)"
  by (simp add: excise_def)

theorem excise_multi_child_root_throws_witness:
  "isRoot tree_ABCD 0 \<and> length (b_children tree_ABCD 0) > 1 \<and>
   excise tree_ABCD 0 = Some (Throw ExciseRootError tree_ABCD)"
proof -
  have r: "isRoot tree_ABCD 0" by (simp add: isRoot_def tree_ABCD_def)
  have c: "length (b_children tree_ABCD 0) > 1" by (simp add: tree_ABCD_def)
  show ?thesis using r c excise_multi_child_root_throws [OF r c] by simp
qed

section \<open>Stale entries after addChild and addParent\<close>

text \<open>
  C2, evaluated: P and Q are consistent trees. After \<open>Q.addChild(C)\<close> the parent of C is
  Q, C is still in the children of P, and \<open>isConsistent\<close> on P is false. \<open>C.addParent(Q)\<close>
  leaves the same stale entry.
\<close>

theorem addChild_leaves_stale_entry:
  "isConsistent 2 two_roots 0 = Some True \<and> isConsistent 2 two_roots 2 = Some True \<and>
   (let h' = snd (addChild two_roots 2 1) in
      b_parent h' 1 = Some 2 \<and> b_children h' 2 = [1] \<and> b_children h' 0 = [1] \<and>
      isConsistent 2 h' 0 = Some False) \<and>
   (let h' = addParent two_roots 1 2 [] in
      b_parent h' 1 = Some 2 \<and> b_children h' 2 = [1] \<and> b_children h' 0 = [1] \<and>
      isConsistent 2 h' 0 = Some False)"
  by (simp add: two_roots_def addChild_def addParent_def isLeaf_def eval_nat_numeral)

section \<open>distanceBetween\<close>

text \<open>
  C3, evaluated on the tree of \<open>(A:1,B:2,(C:3,D:4):5);\<close>: the distance from C to
  itself is 6, from the inner Branch to C it is 3 and from C to the inner Branch 13, and
  the distance from the root to itself throws.
\<close>

theorem distanceBetween_self_and_ancestor:
  "distanceBetween 5 tree_ABCD 4 4 = Some (Inr 6) \<and>
   distanceBetween 5 tree_ABCD 3 4 = Some (Inr 3) \<and>
   distanceBetween 5 tree_ABCD 4 3 = Some (Inr 13) \<and>
   distanceBetween 5 tree_ABCD 0 0 = Some (Inl NoCommonAncestor)"
  by (simp add: tree_ABCD_def distanceBetween_def hasDescendant_def depthOf_def eval_nat_numeral)

section \<open>consolidate on adjacent short siblings\<close>

text \<open>
  C6, evaluated: both leaves of R have length 0. \<open>consolidate\<close> excises A; the splice
  moves B to index 0, the traversal goes on at index 1, and B stays with length 0.
\<close>

theorem consolidate_skips_adjacent_sibling:
  "\<exists>h'. consolidate 3 zero_siblings 0 = Some (Return 0 h') \<and> b_children h' 0 = [2] \<and>
     b_parent h' 2 = Some 0 \<and> b_length h' 2 = 0 \<and> b_id h' 0 = ''R+A''"
  by (simp add: zero_siblings_def consolidate_def consolidate_callback_def isRoot_def excise_def
      eachChild_def bind_res_def splice_def fixDistances_def fixDistances_before_def
      fixDistances_after_def eval_nat_numeral)

section \<open>clone\<close>

text \<open>
  C9, evaluated: the clone of the root 0 is the new Branch 6, and its children are the
  new Branches 7, 8 and 9, not the children 1, 2 and 3 of the original.
\<close>

theorem clone_rebuilds_children:
  "\<exists>h'. clone 3 tree_ABCD 0 = Some (Return 6 h') \<and> b_children h' 6 = [7, 8, 9] \<and>
     b_children h' 0 = [1, 2, 3] \<and> b_parent h' 6 = None"
  by (simp add: tree_ABCD_def clone_def Branch_def addChild_def bind_res_def fixDistances_def
      fixDistances_before_def fixDistances_after_def eval_nat_numeral)

section \<open>Traversals of a well-formed tree\<close>

text \<open>
  A callback that always returns and leaves the children arrays alone is run by
  \<open>eachBefore\<close> on the nodes in pre-order and by \<open>eachAfter\<close> in post-order, once
  the fuel covers the height of the tree.
\<close>

lemma bind_res_simps [simp]:
  "bind_res None f = None"
  "bind_res (Some (Throw e s)) f = Some (Throw e s)"
  "bind_res (Some (Return a s)) f = f a s"
  by (simp_all add: bind_res_def)

lemma forEach_stable:
  assumes step: "\<And>k s. k < length xs \<Longrightarrow> I k s \<Longrightarrow> \<exists>s'. cb s (xs ! k) = Some (Return () s') \<and> I (Suc k) s'"
    and arr: "\<And>k s. I k s \<Longrightarrow> arr s = xs"
  shows "I k s \<Longrightarrow> k \<le> length xs \<Longrightarrow> n = length xs - k \<Longrightarrow>
         \<exists>s'. forEach arr cb n k s = Some (Return () s') \<and> I (length xs) s'"
proof (induction n arbitrary: k s)
  case 0
  then show ?case by simp
next
  case (Suc n)
  from Suc.prems have k: "k < length xs" by simp
  from step [OF k Suc.prems(1)] obtain s' where
    s': "cb s (xs ! k) = Some (Return () s')" "I (Suc k) s'" by blast
  have k': "Suc k \<le> length xs" using k by simp
  have n: "n = length xs - Suc k" using Suc.prems(3) by simp
  from Suc.IH [OF s'(2) k' n] obtain s'' where
    s'': "forEach arr cb n (Suc k) s' = Some (Return () s'')" "I (length xs) s''" by blast
  have a: "arr s = xs" by (rule arr [OF Suc.prems(1)])
  have "forEach arr cb (Suc n) k s = Some (Return () s'')"
    using s'(1) s''(1) k a by simp
  with s''(2) show ?case by blast
qed

lemma a_height_member: "t \<in> set ts \<Longrightarrow> a_height t \<le> foldr max (map a_height ts) 0"
  by (induction ts) auto

lemma foldl_children:
  assumes "\<And>s d. b_children (hp (upd s d)) = b_children (hp s)"
  shows "b_children (hp (foldl upd s xs)) = b_children (hp s)"
  using assms by (induction xs arbitrary: s) simp_all

lemma shape_cong: "b_children h' = b_children h \<Longrightarrow> shape h' t = shape h t"
  by (induction t) simp

lemma eachBefore_fold:
  assumes cb: "\<And>s d. cb s d = Some (Return () (upd s d))"
    and ch: "\<And>s d. b_children (hp (upd s d)) = b_children (hp s)"
  shows "shape (hp s) t \<Longrightarrow> a_height t \<le> fuel \<Longrightarrow>
         eachBefore fuel hp cb s (a_root t) = Some (Return () (foldl upd s (a_nodes t)))"
proof (induction t arbitrary: s fuel)
  case (ANode a ts)
  from ANode.prems(2) obtain f where fuel: "fuel = Suc f" by (cases fuel) auto
  let ?s1 = "upd s a"
  let ?xs = "map a_root ts"
  let ?I = "\<lambda>k s'. s' = foldl upd ?s1 (concat (map a_nodes (take k ts)))"
  have kids: "b_children (hp ?s1) a = ?xs" using ANode.prems(1) ch by simp
  have step: "\<exists>s''. eachBefore f hp cb s' (?xs ! k) = Some (Return () s'') \<and> ?I (Suc k) s''"
    if "k < length ?xs" "?I k s'" for k s'
  proof -
    from that have k: "k < length ts" by simp
    then have mem: "ts ! k \<in> set ts" by simp
    have "b_children (hp s') = b_children (hp s)"
      using that(2) foldl_children [of hp upd, OF ch] ch by simp
    then have "shape (hp s') (ts ! k) = shape (hp s) (ts ! k)"
      by (rule shape_cong)
    moreover have "shape (hp s) (ts ! k)"
      using ANode.prems(1) mem by simp
    ultimately have sh: "shape (hp s') (ts ! k)" by simp
    have ht: "a_height (ts ! k) \<le> f"
      using a_height_member [OF mem] ANode.prems(2) fuel by simp
    from ANode.IH [OF mem sh ht] that(2) k show ?thesis
      by (simp add: take_Suc_conv_app_nth)
  qed
  have arr: "b_children (hp s') a = ?xs" if "?I k s'" for k s'
    using that kids foldl_children [of hp upd, OF ch] by simp
  from forEach_stable [where I = ?I and arr = "\<lambda>s'. b_children (hp s') a" and xs = ?xs
      and cb = "\<lambda>s' child. eachBefore f hp cb s' child" and k = 0 and s = ?s1 and n = "length ?xs",
      OF step arr]
  have "forEach (\<lambda>s'. b_children (hp s') a) (\<lambda>s' child. eachBefore f hp cb s' child)
          (length ?xs) 0 ?s1
        = Some (Return () (foldl upd ?s1 (concat (map a_nodes ts))))"
    by simp
  then show ?case using fuel cb [of s a] kids by simp
qed

lemma eachAfter_fold:
  assumes cb: "\<And>s d. cb s d = Some (Return () (upd s d))"
    and ch: "\<And>s d. b_children (hp (upd s d)) = b_children (hp s)"
  shows "shape (hp s) t \<Longrightarrow> a_height t \<le> fuel \<Longrightarrow>
         eachAfter fuel hp cb s (a_root t) = Some (Return () (foldl upd s (a_post t)))"
proof (induction t arbitrary: s fuel)
  case (ANode a ts)
  from ANode.prems(2) obtain f where fuel: "fuel = Suc f" by (cases fuel) auto
  let ?xs = "map a_root ts"
  let ?I = "\<lambda>k s'. s' = foldl upd s (concat (map a_post (take k ts)))"
  have kids: "b_children (hp s) a = ?xs" using ANode.prems(1) by simp
  have step: "\<exists>s''. eachAfter f hp cb s' (?xs ! k) = Some (Return () s'') \<and> ?I (Suc k) s''"
    if "k < length ?xs" "?I k s'" for k s'
  proof -
    from that have k: "k < length ts" by simp
    then have mem: "ts ! k \<in> set ts" by simp
    have "b_children (hp s') = b_children (hp s)"
      using that(2) foldl_children [of hp upd, OF ch] by simp
    then have "shape (hp s') (ts ! k) = shape (hp s) (ts ! k)"
      by (rule shape_cong)
    moreover have "shape (hp s) (ts ! k)"
      using ANode.prems(1) mem by simp
    ultimately have sh: "shape (hp s') (ts ! k)" by simp
    have ht: "a_height (ts ! k) \<le> f"
      using a_height_member [OF mem] ANode.prems(2) fuel by simp
    from ANode.IH [OF mem sh ht] that(2) k show ?thesis
      by (simp add: take_Suc_conv_app_nth)
  qed
  have arr: "b_children (hp s') a = ?xs" if "?I k s'" for k s'
    using that kids foldl_children [of hp upd, OF ch] by simp
  from forEach_stable [where I = ?I and arr = "\<lambda>s'. b_children (hp s') a" and xs = ?xs
      and cb = "\<lambda>s' child. eachAfter f hp cb s' child" and k = 0 and s = s and n = "length ?xs",
      OF step arr]
  have "forEach (\<lambda>s'. b_children (hp s') a) (\<lambda>s' child. eachAfter f hp cb s' child)
          (length ?xs) 0 s
        = Some (Return () (foldl upd s (concat (map a_post ts))))"
    by simp
  then show ?case
    using fuel cb [of "foldl upd s (concat (map a_post ts))" a] kids by simp
qed

section \<open>fixDistances on a well-formed tree\<close>

lemma foldl_plus_sum_list: "foldl (\<lambda>a c. a + f c) (z::rat) xs = z + sum_list (map f xs)"
  by (induction xs arbitrary: z) (simp_all add: add.assoc)

lemma fixDistances_before_step: "fixDistances_before s d = Some (Return () (before_step s d))"
  by (cases s) (simp add: fixDistances_before_def before_step_def Let_def max_def split: option.splits)

lemma fixDistances_after_step: "fixDistances_after s d = Some (Return () (after_step s d))"
  by (cases s) (simp add: fixDistances_after_def after_step_def Let_def foldl_plus_sum_list)



lemma parents_ok_cong: "b_parent h' = b_parent h \<Longrightarrow> parents_ok h' t = parents_ok h t"
  by (induction t) simp

lemma parent_in_tree:
  "parents_ok h t \<Longrightarrow> x \<in> set (a_nodes t) \<Longrightarrow>
   x = a_root t \<or> (\<exists>q \<in> set (a_nodes t). b_parent h x = Some q)"
proof (induction t)
  case (ANode a ts)
  show ?case
  proof (cases "x = a")
    case True
    then show ?thesis by simp
  next
    case False
    with ANode.prems(2) obtain u where u: "u \<in> set ts" "x \<in> set (a_nodes u)" by auto
    from ANode.prems(1) u(1) have pu: "parents_ok h u" "b_parent h (a_root u) = Some a" by auto
    from ANode.IH [OF u(1) pu(1) u(2)]
    have "x = a_root u \<or> (\<exists>q\<in>set (a_nodes u). b_parent h x = Some q)" .
    then show ?thesis
    proof
      assume "x = a_root u"
      with pu(2) show ?thesis by simp
    next
      assume "\<exists>q\<in>set (a_nodes u). b_parent h x = Some q"
      then obtain q where "q \<in> set (a_nodes u)" "b_parent h x = Some q" by blast
      with u(1) have "q \<in> set (a_nodes (ANode a ts))" by auto
      with \<open>b_parent h x = Some q\<close> show ?thesis by blast
    qed
  qed
qed

lemma a_root_in_nodes: "a_root t \<in> set (a_nodes t)"
  by (cases t) simp

lemma children_in_tree:
  "shape h t \<Longrightarrow> x \<in> set (a_nodes t) \<Longrightarrow> set (b_children h x) \<subseteq> set (a_nodes t)"
proof (induction t)
  case (ANode a ts)
  show ?case
  proof (cases "x = a")
    case True
    have "a_root u \<in> set (a_nodes (ANode a ts))" if "u \<in> set ts" for u
    proof -
      have "a_root u \<in> set (a_nodes u)" by (rule a_root_in_nodes)
      with that have "a_root u \<in> set (concat (map a_nodes ts))" by auto
      then show ?thesis by simp
    qed
    with True ANode.prems(1) show ?thesis by auto
  next
    case False
    with ANode.prems(2) obtain u where u: "u \<in> set ts" "x \<in> set (a_nodes u)" by auto
    from ANode.prems(1) u(1) have "shape h u" by simp
    from ANode.IH [OF u(1) this u(2)] u(1) show ?thesis by auto
  qed
qed

lemma foldl_preserve:
  assumes "\<And>s d. f (upd s d) = f s"
  shows "f (foldl upd s xs) = f s"
  using assms by (induction xs arbitrary: s) simp_all

lemma depth_post_compose:
  assumes 1: "depth_post h F1 dp1 m m1"
    and 2: "depth_post (h\<lparr> b_depth := dp1 \<rparr>) F2 dp2 m1 m2"
    and dj: "F1 \<inter> F2 = {}"
    and par: "\<forall>x\<in>F1. \<forall>q. b_parent h x = Some q \<longrightarrow> q \<notin> F2"
  shows "depth_post h (F1 \<union> F2) dp2 m m2"
proof -
  have out: "dp2 x = dp1 x" if "x \<notin> F2" for x
    using 2 that by (simp add: depth_post_def)
  have a: "\<forall>x. x \<notin> F1 \<union> F2 \<longrightarrow> dp2 x = b_depth h x"
    using 1 out by (simp add: depth_post_def)
  have b: "\<exists>q. b_parent h x = Some q \<and> dp2 x = dp2 q + 1" if "x \<in> F1 \<union> F2" for x
  proof (cases "x \<in> F2")
    case True
    with 2 show ?thesis by (simp add: depth_post_def)
  next
    case False
    with that have x1: "x \<in> F1" by simp
    with 1 obtain q where q: "b_parent h x = Some q" "dp1 x = dp1 q + 1"
      by (auto simp: depth_post_def)
    from par x1 q(1) have "q \<notin> F2" by blast
    with out [OF False] out [of q] q show ?thesis by simp
  qed
  have c: "m \<le> m2" using 1 2 by (simp add: depth_post_def)
  have d: "dp2 x \<le> m2" if "x \<in> F1 \<union> F2" for x
  proof (cases "x \<in> F2")
    case True
    with 2 show ?thesis by (simp add: depth_post_def)
  next
    case False
    with that have x1: "x \<in> F1" by simp
    with 1 have "dp1 x \<le> m1" by (simp add: depth_post_def)
    moreover have "m1 \<le> m2" using 2 by (simp add: depth_post_def)
    ultimately show ?thesis using out [OF False] by simp
  qed
  have e: "m2 = m \<or> m2 \<in> dp2 ` (F1 \<union> F2)"
  proof -
    from 2 have "m2 = m1 \<or> m2 \<in> dp2 ` F2" by (simp add: depth_post_def)
    then show ?thesis
    proof
      assume m21: "m2 = m1"
      from 1 have "m1 = m \<or> m1 \<in> dp1 ` F1" by (simp add: depth_post_def)
      then show ?thesis
      proof
        assume "m1 = m" with m21 show ?thesis by simp
      next
        assume "m1 \<in> dp1 ` F1"
        then obtain x where x: "x \<in> F1" "m1 = dp1 x" by blast
        with dj have "x \<notin> F2" by blast
        from out [OF this] x m21 have "m2 = dp2 x" by simp
        with x(1) show ?thesis by blast
      qed
    next
      assume "m2 \<in> dp2 ` F2" then show ?thesis by blast
    qed
  qed
  from a b c d e show ?thesis unfolding depth_post_def by blast
qed

lemma depth_post_empty: "depth_post h {} (b_depth h) m m"
  by (simp add: depth_post_def)

lemma heap_depth_same [simp]: "h\<lparr> b_depth := b_depth h \<rparr> = h"
  by simp

lemma before_forest:
  assumes IH: "\<And>t h m p. t \<in> set ts \<Longrightarrow> parents_ok h t \<Longrightarrow> distinct (a_nodes t) \<Longrightarrow>
      b_parent h (a_root t) = Some p \<Longrightarrow> p \<notin> set (a_nodes t) \<Longrightarrow>
      \<exists>dp m'. foldl before_step (h, m) (a_nodes t) = (h\<lparr> b_depth := dp \<rparr>, m') \<and>
        depth_post h (set (a_nodes t)) dp m m'"
  shows "set us \<subseteq> set ts \<Longrightarrow>
     (\<forall>t\<in>set us. parents_ok h t \<and> b_parent h (a_root t) = Some a) \<Longrightarrow>
     distinct (concat (map a_nodes us)) \<Longrightarrow> a \<notin> set (concat (map a_nodes us)) \<Longrightarrow>
     \<exists>dp m'. foldl before_step (h, m) (concat (map a_nodes us)) = (h\<lparr> b_depth := dp \<rparr>, m') \<and>
       depth_post h (set (concat (map a_nodes us))) dp m m'"
proof (induction us arbitrary: h m)
  case Nil
  have "foldl before_step (h, m) (concat (map a_nodes [])) = (h\<lparr> b_depth := b_depth h \<rparr>, m)"
    by simp
  moreover have "depth_post h (set (concat (map a_nodes []))) (b_depth h) m m"
    by (simp add: depth_post_empty)
  ultimately show ?case by blast
next
  case (Cons t us)
  let ?F1 = "set (a_nodes t)"
  let ?F2 = "set (concat (map a_nodes us))"
  have t: "t \<in> set ts" using Cons.prems(1) by simp
  have pt: "parents_ok h t" "b_parent h (a_root t) = Some a" using Cons.prems(2) by simp_all
  have dt: "distinct (a_nodes t)" using Cons.prems(3) by simp
  have at: "a \<notin> ?F1" using Cons.prems(4) by simp
  from IH [OF t pt(1) dt pt(2) at, of m] obtain dp1 m1 where
    r1: "foldl before_step (h, m) (a_nodes t) = (h\<lparr> b_depth := dp1 \<rparr>, m1)"
    and p1: "depth_post h ?F1 dp1 m m1" by blast
  let ?h1 = "h\<lparr> b_depth := dp1 \<rparr>"
  have sub: "set us \<subseteq> set ts" using Cons.prems(1) by simp
  have pus: "\<forall>u\<in>set us. parents_ok ?h1 u \<and> b_parent ?h1 (a_root u) = Some a"
  proof
    fix u assume u: "u \<in> set us"
    have "parents_ok ?h1 u = parents_ok h u" by (rule parents_ok_cong) simp
    with Cons.prems(2) u show "parents_ok ?h1 u \<and> b_parent ?h1 (a_root u) = Some a" by simp
  qed
  have dus: "distinct (concat (map a_nodes us))" using Cons.prems(3) by simp
  have aus: "a \<notin> ?F2" using Cons.prems(4) by simp
  from Cons.IH [OF sub pus dus aus, of m1] obtain dp2 m2 where
    r2: "foldl before_step (?h1, m1) (concat (map a_nodes us)) = (?h1\<lparr> b_depth := dp2 \<rparr>, m2)"
    and p2: "depth_post ?h1 ?F2 dp2 m1 m2" by blast
  have dj: "?F1 \<inter> ?F2 = {}" using Cons.prems(3) by simp
  have par: "\<forall>x\<in>?F1. \<forall>q. b_parent h x = Some q \<longrightarrow> q \<notin> ?F2"
  proof (intro ballI allI impI)
    fix x q assume x: "x \<in> ?F1" and q: "b_parent h x = Some q"
    from parent_in_tree [OF pt(1) x]
    have "x = a_root t \<or> (\<exists>q'\<in>?F1. b_parent h x = Some q')" .
    then show "q \<notin> ?F2"
    proof
      assume "x = a_root t"
      with pt(2) q aus show ?thesis by simp
    next
      assume "\<exists>q'\<in>?F1. b_parent h x = Some q'"
      with q have "q \<in> ?F1" by auto
      with dj show ?thesis by blast
    qed
  qed
  have "foldl before_step (h, m) (concat (map a_nodes (t # us))) = (h\<lparr> b_depth := dp2 \<rparr>, m2)"
    using r1 r2 by simp
  moreover have "depth_post h (set (concat (map a_nodes (t # us)))) dp2 m m2"
    using depth_post_compose [OF p1 p2 dj par] by simp
  ultimately show ?case by blast
qed

lemma before_tree:
  "parents_ok h t \<Longrightarrow> distinct (a_nodes t) \<Longrightarrow> b_parent h (a_root t) = Some p \<Longrightarrow>
   p \<notin> set (a_nodes t) \<Longrightarrow>
   \<exists>dp m'. foldl before_step (h, m) (a_nodes t) = (h\<lparr> b_depth := dp \<rparr>, m') \<and>
     depth_post h (set (a_nodes t)) dp m m'"
proof (induction t arbitrary: h m p)
  case (ANode a ts)
  let ?d = "b_depth h p + 1"
  let ?dp1 = "(b_depth h)(a := ?d)"
  let ?h1 = "h\<lparr> b_depth := ?dp1 \<rparr>"
  let ?m1 = "max m ?d"
  let ?F2 = "set (concat (map a_nodes ts))"
  have pa: "b_parent h a = Some p" using ANode.prems(3) by simp
  have pne: "p \<noteq> a" using ANode.prems(4) by auto
  have s1: "before_step (h, m) a = (?h1, ?m1)" using pa by (simp add: before_step_def)
  have p1: "depth_post h {a} ?dp1 m ?m1"
    using pa pne by (simp add: depth_post_def max_def)
  have pus: "\<forall>u\<in>set ts. parents_ok ?h1 u \<and> b_parent ?h1 (a_root u) = Some a"
  proof
    fix u assume u: "u \<in> set ts"
    have "parents_ok ?h1 u = parents_ok h u" by (rule parents_ok_cong) simp
    with ANode.prems(1) u show "parents_ok ?h1 u \<and> b_parent ?h1 (a_root u) = Some a" by simp
  qed
  have dus: "distinct (concat (map a_nodes ts))" using ANode.prems(2) by simp
  have aus: "a \<notin> ?F2" using ANode.prems(2) by simp
  have "\<exists>dp m'. foldl before_step (?h1, ?m1) (concat (map a_nodes ts))
            = (?h1\<lparr> b_depth := dp \<rparr>, m') \<and> depth_post ?h1 ?F2 dp ?m1 m'"
  proof (rule before_forest [where ts = ts and a = a])
    fix t h m p
    assume "t \<in> set ts" "parents_ok h t" "distinct (a_nodes t)"
      "b_parent h (a_root t) = Some p" "p \<notin> set (a_nodes t)"
    then show "\<exists>dp m'. foldl before_step (h, m) (a_nodes t) = (h\<lparr> b_depth := dp \<rparr>, m') \<and>
        depth_post h (set (a_nodes t)) dp m m'"
      by (rule ANode.IH)
  next
    show "set ts \<subseteq> set ts" by simp
  next
    show "\<forall>u\<in>set ts. parents_ok ?h1 u \<and> b_parent ?h1 (a_root u) = Some a" by (rule pus)
  next
    show "distinct (concat (map a_nodes ts))" by (rule dus)
  next
    show "a \<notin> ?F2" by (rule aus)
  qed
  then obtain dp2 m2 where
    r2: "foldl before_step (?h1, ?m1) (concat (map a_nodes ts)) = (?h1\<lparr> b_depth := dp2 \<rparr>, m2)"
    and p2: "depth_post ?h1 ?F2 dp2 ?m1 m2" by blast
  have dj: "{a} \<inter> ?F2 = {}" using aus by simp
  have par: "\<forall>x\<in>{a}. \<forall>q. b_parent h x = Some q \<longrightarrow> q \<notin> ?F2"
    using pa ANode.prems(4) by simp
  have "foldl before_step (h, m) (a_nodes (ANode a ts)) = (h\<lparr> b_depth := dp2 \<rparr>, m2)"
    using s1 r2 by simp
  moreover have "depth_post h (set (a_nodes (ANode a ts))) dp2 m m2"
    using depth_post_compose [OF p1 p2 dj par] by simp
  ultimately show ?case by blast
qed

lemma value_post_compose:
  assumes 1: "value_post g h F1 vv1"
    and 2: "value_post g h' F2 vv2"
    and v: "b_value h' = vv1"
    and c: "b_children h' = b_children h"
    and dj: "F1 \<inter> F2 = {}"
    and kids: "\<forall>x\<in>F1. set (b_children h x) \<inter> F2 = {}"
  shows "value_post g h (F1 \<union> F2) vv2"
proof -
  have out: "vv2 x = vv1 x" if "x \<notin> F2" for x
    using 2 v that by (simp add: value_post_def)
  have a: "\<forall>x. x \<notin> F1 \<union> F2 \<longrightarrow> vv2 x = b_value h x"
    using 1 out by (simp add: value_post_def)
  have b: "vv2 x = g (b_value h x) + sum_list (map vv2 (b_children h x))" if "x \<in> F1 \<union> F2" for x
  proof (cases "x \<in> F2")
    case True
    with dj have "x \<notin> F1" by blast
    with 1 have "vv1 x = b_value h x" by (simp add: value_post_def)
    with 2 True v c show ?thesis by (simp add: value_post_def)
  next
    case False
    with that have x1: "x \<in> F1" by simp
    from kids x1 have nk: "\<forall>y\<in>set (b_children h x). y \<notin> F2" by blast
    have "map vv2 (b_children h x) = map vv1 (b_children h x)"
    proof (rule map_cong [OF refl])
      fix y assume "y \<in> set (b_children h x)"
      with nk have "y \<notin> F2" by blast
      then show "vv2 y = vv1 y" by (rule out)
    qed
    then have sm: "sum_list (map vv2 (b_children h x)) = sum_list (map vv1 (b_children h x))"
      by (rule arg_cong)
    from 1 x1 have "vv1 x = g (b_value h x) + sum_list (map vv1 (b_children h x))"
      by (simp add: value_post_def)
    then show ?thesis using out [OF False] by (simp only: sm)
  qed
  from a b show ?thesis unfolding value_post_def by blast
qed

lemma value_post_single:
  assumes "a \<notin> set (b_children h a)"
  shows "value_post g h {a}
           ((b_value h)(a := g (b_value h a) + sum_list (map (b_value h) (b_children h a))))"
proof -
  let ?vv = "(b_value h)(a := g (b_value h a) + sum_list (map (b_value h) (b_children h a)))"
  have "map ?vv (b_children h a) = map (b_value h) (b_children h a)"
  proof (rule map_cong [OF refl])
    fix y assume "y \<in> set (b_children h a)"
    with assms have "y \<noteq> a" by blast
    then show "?vv y = b_value h y" by simp
  qed
  then have sm: "sum_list (map ?vv (b_children h a)) = sum_list (map (b_value h) (b_children h a))"
    by (rule arg_cong)
  have "?vv a = g (b_value h a) + sum_list (map ?vv (b_children h a))"
    by (simp only: sm) simp
  then show ?thesis unfolding value_post_def by simp
qed

lemma value_forest:
  assumes val: "\<And>s d. b_value (hp (upd s d)) =
        (b_value (hp s))(d := g (b_value (hp s) d)
           + sum_list (map (b_value (hp s)) (b_children (hp s) d)))"
    and ch: "\<And>s d. b_children (hp (upd s d)) = b_children (hp s)"
    and IH: "\<And>t s. t \<in> set ts \<Longrightarrow> shape (hp s) t \<Longrightarrow> distinct (a_nodes t) \<Longrightarrow>
        value_post g (hp s) (set (a_nodes t)) (b_value (hp (foldl upd s (a_post t))))"
  shows "set us \<subseteq> set ts \<Longrightarrow> (\<forall>t\<in>set us. shape (hp s) t) \<Longrightarrow>
     distinct (concat (map a_nodes us)) \<Longrightarrow>
     value_post g (hp s) (set (concat (map a_nodes us)))
       (b_value (hp (foldl upd s (concat (map a_post us)))))"
proof (induction us arbitrary: s)
  case Nil
  show ?case by (simp add: value_post_def)
next
  case (Cons t us)
  let ?F1 = "set (a_nodes t)"
  let ?F2 = "set (concat (map a_nodes us))"
  let ?s1 = "foldl upd s (a_post t)"
  have t: "t \<in> set ts" using Cons.prems(1) by simp
  have st: "shape (hp s) t" using Cons.prems(2) by simp
  have dt: "distinct (a_nodes t)" using Cons.prems(3) by simp
  have p1: "value_post g (hp s) ?F1 (b_value (hp ?s1))" by (rule IH [OF t st dt])
  have c1: "b_children (hp ?s1) = b_children (hp s)"
    by (rule foldl_children [of hp upd, OF ch])
  have sub: "set us \<subseteq> set ts" using Cons.prems(1) by simp
  have sus: "\<forall>u\<in>set us. shape (hp ?s1) u"
  proof
    fix u assume "u \<in> set us"
    moreover have "shape (hp ?s1) u = shape (hp s) u" by (rule shape_cong [OF c1])
    ultimately show "shape (hp ?s1) u" using Cons.prems(2) by simp
  qed
  have dus: "distinct (concat (map a_nodes us))" using Cons.prems(3) by simp
  have p2: "value_post g (hp ?s1) ?F2 (b_value (hp (foldl upd ?s1 (concat (map a_post us)))))"
    by (rule Cons.IH [OF sub sus dus])
  have dj: "?F1 \<inter> ?F2 = {}" using Cons.prems(3) by simp
  have kids: "\<forall>x\<in>?F1. set (b_children (hp s) x) \<inter> ?F2 = {}"
  proof
    fix x assume "x \<in> ?F1"
    from children_in_tree [OF st this] dj show "set (b_children (hp s) x) \<inter> ?F2 = {}" by blast
  qed
  have "value_post g (hp s) (?F1 \<union> ?F2) (b_value (hp (foldl upd ?s1 (concat (map a_post us)))))"
    by (rule value_post_compose [OF p1 p2 refl c1 dj kids])
  then show ?case by simp
qed

lemma value_tree:
  assumes val: "\<And>s d. b_value (hp (upd s d)) =
        (b_value (hp s))(d := g (b_value (hp s) d)
           + sum_list (map (b_value (hp s)) (b_children (hp s) d)))"
    and ch: "\<And>s d. b_children (hp (upd s d)) = b_children (hp s)"
  shows "shape (hp s) t \<Longrightarrow> distinct (a_nodes t) \<Longrightarrow>
     value_post g (hp s) (set (a_nodes t)) (b_value (hp (foldl upd s (a_post t))))"
proof (induction t arbitrary: s)
  case (ANode a ts)
  let ?F1 = "set (concat (map a_nodes ts))"
  let ?s1 = "foldl upd s (concat (map a_post ts))"
  have sus: "\<forall>u\<in>set ts. shape (hp s) u" using ANode.prems(1) by simp
  have dus: "distinct (concat (map a_nodes ts))" using ANode.prems(2) by simp
  have aus: "a \<notin> ?F1" using ANode.prems(2) by simp
  have p1: "value_post g (hp s) ?F1 (b_value (hp ?s1))"
  proof (rule value_forest [where ts = ts and hp = hp and upd = upd and g = g])
    fix s d
    show "b_value (hp (upd s d)) = (b_value (hp s))(d := g (b_value (hp s) d)
           + sum_list (map (b_value (hp s)) (b_children (hp s) d)))" by (rule val)
  next
    fix s d show "b_children (hp (upd s d)) = b_children (hp s)" by (rule ch)
  next
    fix t s assume "t \<in> set ts" "shape (hp s) t" "distinct (a_nodes t)"
    then show "value_post g (hp s) (set (a_nodes t)) (b_value (hp (foldl upd s (a_post t))))"
      by (rule ANode.IH)
  next
    show "set ts \<subseteq> set ts" by simp
  next
    show "\<forall>t\<in>set ts. shape (hp s) t" by (rule sus)
  next
    show "distinct (concat (map a_nodes ts))" by (rule dus)
  qed
  have c1: "b_children (hp ?s1) = b_children (hp s)"
    by (rule foldl_children [of hp upd, OF ch])
  have ka: "set (b_children (hp s) a) \<subseteq> ?F1"
  proof -
    have "a_root u \<in> ?F1" if "u \<in> set ts" for u
      using that a_root_in_nodes [of u] by auto
    with ANode.prems(1) show ?thesis by auto
  qed
  have "a \<notin> set (b_children (hp ?s1) a)" using ka aus c1 by auto
  from value_post_single [OF this, of g]
  have p2: "value_post g (hp ?s1) {a} (b_value (hp (upd ?s1 a)))" by (simp add: val)
  have dj: "?F1 \<inter> {a} = {}" using aus by simp
  have kids: "\<forall>x\<in>?F1. set (b_children (hp s) x) \<inter> {a} = {}"
  proof
    fix x assume "x \<in> ?F1"
    then obtain u where u: "u \<in> set ts" "x \<in> set (a_nodes u)" by auto
    from sus u(1) have "shape (hp s) u" by simp
    from children_in_tree [OF this u(2)] u(1) have "set (b_children (hp s) x) \<subseteq> ?F1" by auto
    with aus show "set (b_children (hp s) x) \<inter> {a} = {}" by blast
  qed
  have "value_post g (hp s) (?F1 \<union> {a}) (b_value (hp (upd ?s1 a)))"
    by (rule value_post_compose [OF p1 p2 refl c1 dj kids])
  then show ?case by simp
qed

lemma set_a_post: "set (a_post t) = set (a_nodes t)"
  by (induction t) auto

lemma after_step_fold_form:
  "\<exists>hh vv. foldl after_step (h, m) xs = (h\<lparr> b_height := hh, b_value := vv \<rparr>, m)"
proof (induction xs arbitrary: h)
  case Nil
  have "(h, m) = (h\<lparr> b_height := b_height h, b_value := b_value h \<rparr>, m)" by simp
  then show ?case by (metis foldl_Nil)
next
  case (Cons d xs)
  obtain h1 where h1: "after_step (h, m) d = (h1, m)"
    and f: "h1 = h\<lparr> b_height := b_height h1, b_value := b_value h1 \<rparr>"
    by (simp add: after_step_def)
  from Cons.IH [of h1] obtain hh vv where
    "foldl after_step (h1, m) xs = (h1\<lparr> b_height := hh, b_value := vv \<rparr>, m)" by blast
  moreover have "h1\<lparr> b_height := hh, b_value := vv \<rparr> = h\<lparr> b_height := hh, b_value := vv \<rparr>"
    by (subst f) simp
  ultimately show ?case using h1 by auto
qed

lemma after_step_height:
  "b_height (fst (foldl after_step (h, m) xs)) x =
     (if x \<in> set xs then m - b_depth h x else b_height h x)"
proof (induction xs arbitrary: h)
  case Nil
  show ?case by simp
next
  case (Cons d xs)
  obtain h1 where h1: "after_step (h, m) d = (h1, m)"
    and d1: "b_depth h1 = b_depth h"
    and g1: "b_height h1 = (b_height h)(d := m - b_depth h d)"
    by (simp add: after_step_def)
  show ?case using Cons.IH [of h1] h1 d1 g1 by simp
qed

lemma before_step_children: "b_children (fst (before_step s d)) = b_children (fst s)"
  by (simp add: before_step_def split: option.splits)

lemma after_step_children: "b_children (fst (after_step s d)) = b_children (fst s)"
  by (simp add: after_step_def)

lemma after_step_value:
  "b_value (fst (after_step s d)) =
     (b_value (fst s))(d := (\<lambda>v. v) (b_value (fst s) d)
        + sum_list (map (b_value (fst s)) (b_children (fst s) d)))"
  by (simp add: after_step_def)

lemma value_post_cong:
  "b_value h' = b_value h \<Longrightarrow> b_children h' = b_children h \<Longrightarrow>
   value_post g h' F vv = value_post g h F vv"
  by (simp add: value_post_def)

lemma fixDistances_on_tree:
  assumes tr: "is_tree h t" and rt: "b_parent h (a_root t) = None" and fuel: "a_height t \<le> fuel"
  shows "\<exists>dp hh vv.
     fixDistances fuel h (a_root t)
       = Some (Return (a_root t) (h\<lparr> b_depth := dp, b_height := hh, b_value := vv \<rparr>)) \<and>
     dp (a_root t) = 0 \<and>
     (\<forall>n\<in>set (a_nodes t). \<forall>p. b_parent h n = Some p \<longrightarrow> dp n = dp p + 1) \<and>
     (\<forall>n\<in>set (a_nodes t). hh n = Max (dp ` set (a_nodes t)) - dp n) \<and>
     value_post (\<lambda>v. v) h (set (a_nodes t)) vv"
proof -
  obtain a ts where t: "t = ANode a ts" by (cases t)
  from fuel t obtain f where f: "fuel = Suc f" by (cases fuel) auto
  let ?N = "set (a_nodes t)"
  let ?F = "set (concat (map a_nodes ts))"
  let ?h1 = "h\<lparr> b_depth := (b_depth h)(a := 0) \<rparr>"
  from tr have sh: "shape h t" and po: "parents_ok h t" and di: "distinct (a_nodes t)"
    by (simp_all add: is_tree_def)
  have pa: "b_parent h a = None" using rt t by simp
  have gr: "getRoot fuel h a = Some a" using f pa by simp
  have sh1: "shape (fst (?h1, 0::int)) t"
    using sh shape_cong [of ?h1 h t] by simp
  have eb: "eachBefore fuel fst fixDistances_before (?h1, 0) (a_root t)
              = Some (Return () (foldl before_step (?h1, 0) (a_nodes t)))"
    by (rule eachBefore_fold [OF fixDistances_before_step before_step_children sh1 fuel])
  have s0: "before_step (?h1, 0) a = (?h1, 0)" using pa by (simp add: before_step_def)
  have pus: "\<forall>u\<in>set ts. parents_ok ?h1 u \<and> b_parent ?h1 (a_root u) = Some a"
  proof
    fix u assume u: "u \<in> set ts"
    have "parents_ok ?h1 u = parents_ok h u" by (rule parents_ok_cong) simp
    with po t u show "parents_ok ?h1 u \<and> b_parent ?h1 (a_root u) = Some a" by simp
  qed
  have dus: "distinct (concat (map a_nodes ts))" using di t by simp
  have aus: "a \<notin> ?F" using di t by simp
  have "\<exists>dp m'. foldl before_step (?h1, 0) (concat (map a_nodes ts))
            = (?h1\<lparr> b_depth := dp \<rparr>, m') \<and> depth_post ?h1 ?F dp 0 m'"
  proof (rule before_forest [where ts = ts and a = a])
    fix t h m p
    assume "t \<in> set ts" "parents_ok h t" "distinct (a_nodes t)"
      "b_parent h (a_root t) = Some p" "p \<notin> set (a_nodes t)"
    then show "\<exists>dp m'. foldl before_step (h, m) (a_nodes t) = (h\<lparr> b_depth := dp \<rparr>, m') \<and>
        depth_post h (set (a_nodes t)) dp m m'"
      by (intro before_tree)
  next
    show "set ts \<subseteq> set ts" by simp
  next
    show "\<forall>u\<in>set ts. parents_ok ?h1 u \<and> b_parent ?h1 (a_root u) = Some a" by (rule pus)
  next
    show "distinct (concat (map a_nodes ts))" by (rule dus)
  next
    show "a \<notin> ?F" by (rule aus)
  qed
  then obtain dp m' where
    r1: "foldl before_step (?h1, 0) (concat (map a_nodes ts)) = (?h1\<lparr> b_depth := dp \<rparr>, m')"
    and p1: "depth_post ?h1 ?F dp 0 m'" by blast
  let ?h2 = "h\<lparr> b_depth := dp \<rparr>"
  have h12: "?h1\<lparr> b_depth := dp \<rparr> = ?h2" by simp
  have fb: "foldl before_step (?h1, 0) (a_nodes t) = (?h2, m')"
    using t s0 r1 h12 by simp
  have sh2: "shape (fst (?h2, m')) t"
    using sh shape_cong [of ?h2 h t] by simp
  have ea: "eachAfter fuel fst fixDistances_after (?h2, m') (a_root t)
              = Some (Return () (foldl after_step (?h2, m') (a_post t)))"
    by (rule eachAfter_fold [OF fixDistances_after_step after_step_children sh2 fuel])
  from after_step_fold_form [of ?h2 m' "a_post t"] obtain hh vv where
    fa: "foldl after_step (?h2, m') (a_post t) = (?h2\<lparr> b_height := hh, b_value := vv \<rparr>, m')"
    by blast
  let ?h3 = "h\<lparr> b_depth := dp, b_height := hh, b_value := vv \<rparr>"
  have h23: "?h2\<lparr> b_height := hh, b_value := vv \<rparr> = ?h3" by simp
  have run: "fixDistances fuel h (a_root t) = Some (Return (a_root t) ?h3)"
    using gr eb fb ea fa h23 t by (simp add: fixDistances_def)
  from p1 have dp_out: "\<forall>x. x \<notin> ?F \<longrightarrow> dp x = b_depth ?h1 x"
    and dp_par: "\<forall>x\<in>?F. \<exists>q. b_parent ?h1 x = Some q \<and> dp x = dp q + 1"
    and m0: "0 \<le> m'"
    and dp_le: "\<forall>x\<in>?F. dp x \<le> m'"
    and dp_att: "m' = 0 \<or> m' \<in> dp ` ?F"
    unfolding depth_post_def by blast+
  have "dp a = b_depth ?h1 a" using dp_out aus by blast
  then have dpa: "dp a = 0" by simp
  have N: "?N = insert a ?F" using t by simp
  have dpn: "\<forall>n\<in>?N. \<forall>p. b_parent h n = Some p \<longrightarrow> dp n = dp p + 1"
  proof (intro ballI allI impI)
    fix n p assume n: "n \<in> ?N" and p: "b_parent h n = Some p"
    from p pa have "n \<noteq> a" by auto
    with n N have "n \<in> ?F" by blast
    with dp_par obtain q where "b_parent ?h1 n = Some q" "dp n = dp q + 1" by blast
    with p show "dp n = dp p + 1" by simp
  qed
  have mx: "Max (dp ` ?N) = m'"
  proof (rule Max_eqI)
    show "finite (dp ` ?N)" by simp
  next
    fix y assume "y \<in> dp ` ?N"
    then obtain x where x: "x \<in> ?N" "y = dp x" by blast
    show "y \<le> m'"
    proof (cases "x = a")
      case True
      with x dpa m0 show ?thesis by simp
    next
      case False
      with x N have "x \<in> ?F" by blast
      with dp_le x show ?thesis by blast
    qed
  next
    from dp_att show "m' \<in> dp ` ?N"
    proof
      assume "m' = 0"
      with dpa have "m' = dp a" by simp
      with N show ?thesis by blast
    next
      assume "m' \<in> dp ` ?F"
      with N show ?thesis by blast
    qed
  qed
  have hhn: "\<forall>n\<in>?N. hh n = Max (dp ` ?N) - dp n"
  proof
    fix n assume n: "n \<in> ?N"
    have "b_height (fst (foldl after_step (?h2, m') (a_post t))) n =
            (if n \<in> set (a_post t) then m' - b_depth ?h2 n else b_height ?h2 n)"
      by (rule after_step_height)
    with fa n mx show "hh n = Max (dp ` ?N) - dp n" by (simp add: set_a_post)
  qed
  have "value_post (\<lambda>v. v) (fst (?h2, m')) ?N
          (b_value (fst (foldl after_step (?h2, m') (a_post t))))"
    by (rule value_tree [where hp = fst and upd = after_step, OF after_step_value
          after_step_children sh2 di])
  then have "value_post (\<lambda>v. v) ?h2 ?N vv" using fa by simp
  moreover have "value_post (\<lambda>v. v) ?h2 ?N vv = value_post (\<lambda>v. v) h ?N vv"
    by (rule value_post_cong) simp_all
  ultimately have vp: "value_post (\<lambda>v. v) h ?N vv" by simp
  have dpa': "dp (a_root t) = 0" using dpa t by simp
  show ?thesis
    by (intro exI conjI) (rule run, rule dpa', rule dpn, rule hhn, rule vp)
qed




lemma tree_ABCD_is_tree: "is_tree tree_ABCD tree_ABCD_shape"
  by (simp add: is_tree_def tree_ABCD_shape_def tree_ABCD_def)

section \<open>Depth and height after fixDistances\<close>

text \<open>
  C7, as amended: on a well-formed tree, called on the root with fuel for the height of
  the tree, \<open>fixDistances\<close> returns; the root has depth 0, every other node has the
  depth of its parent plus 1, and the height of every node is the maximum depth over the
  whole tree minus its own depth.
\<close>

theorem fixDistances_depth_height:
  "is_tree h t \<Longrightarrow> b_parent h (a_root t) = None \<Longrightarrow> a_height t \<le> fuel \<Longrightarrow>
   \<exists>h'. fixDistances fuel h (a_root t) = Some (Return (a_root t) h') \<and>
     b_children h' = b_children h \<and> b_parent h' = b_parent h \<and>
     b_depth h' (a_root t) = 0 \<and>
     (\<forall>n\<in>set (a_nodes t). \<forall>p. b_parent h' n = Some p \<longrightarrow> b_depth h' n = b_depth h' p + 1) \<and>
     (\<forall>n\<in>set (a_nodes t).
        b_height h' n = Max (b_depth h' ` set (a_nodes t)) - b_depth h' n)"
proof -
  assume a: "is_tree h t" "b_parent h (a_root t) = None" "a_height t \<le> fuel"
  from fixDistances_on_tree [OF a] obtain dp hh vv where
    run: "fixDistances fuel h (a_root t)
       = Some (Return (a_root t) (h\<lparr> b_depth := dp, b_height := hh, b_value := vv \<rparr>))"
    and d0: "dp (a_root t) = 0"
    and dn: "\<forall>n\<in>set (a_nodes t). \<forall>p. b_parent h n = Some p \<longrightarrow> dp n = dp p + 1"
    and hn: "\<forall>n\<in>set (a_nodes t). hh n = Max (dp ` set (a_nodes t)) - dp n"
    by blast
  let ?h' = "h\<lparr> b_depth := dp, b_height := hh, b_value := vv \<rparr>"
  have "b_children ?h' = b_children h" "b_parent ?h' = b_parent h"
    "b_depth ?h' = dp" "b_height ?h' = hh" by simp_all
  with run d0 dn hn show ?thesis by (intro exI [of _ ?h']) simp
qed

theorem fixDistances_depth_height_witness:
  "is_tree tree_ABCD tree_ABCD_shape \<and> b_parent tree_ABCD (a_root tree_ABCD_shape) = None \<and>
   a_height tree_ABCD_shape \<le> 3 \<and>
   (\<exists>h'. fixDistances 3 tree_ABCD (a_root tree_ABCD_shape)
            = Some (Return (a_root tree_ABCD_shape) h') \<and>
      b_children h' = b_children tree_ABCD \<and> b_parent h' = b_parent tree_ABCD \<and>
      b_depth h' (a_root tree_ABCD_shape) = 0 \<and>
      (\<forall>n\<in>set (a_nodes tree_ABCD_shape). \<forall>p. b_parent h' n = Some p \<longrightarrow>
          b_depth h' n = b_depth h' p + 1) \<and>
      (\<forall>n\<in>set (a_nodes tree_ABCD_shape).
          b_height h' n = Max (b_depth h' ` set (a_nodes tree_ABCD_shape)) - b_depth h' n))"
proof -
  have r: "b_parent tree_ABCD (a_root tree_ABCD_shape) = None"
    by (simp add: tree_ABCD_shape_def tree_ABCD_def)
  have f: "a_height tree_ABCD_shape \<le> 3" by (simp add: tree_ABCD_shape_def)
  from fixDistances_depth_height [OF tree_ABCD_is_tree r f] tree_ABCD_is_tree r f
  show ?thesis by blast
qed

text \<open>
  C7 as stated fails: in the tree of \<open>(A:1,B:2,(C:3,D:4):5);\<close> the leaf A has depth 1
  and, after \<open>fixDistances\<close>, height 1.
\<close>

theorem fixDistances_leaf_height_counterexample:
  "\<exists>h'. fixDistances 3 tree_ABCD 0 = Some (Return 0 h') \<and> b_children h' 1 = [] \<and>
     b_depth h' 1 = 1 \<and> b_height h' 1 = 1"
  by (simp add: tree_ABCD_def fixDistances_def fixDistances_before_def fixDistances_after_def
      eval_nat_numeral)

section \<open>The value field\<close>




section \<open>simplify on a root with one child\<close>

lemma set_splice: "set (splice xs i n []) \<subseteq> set xs"
proof -
  have "set (take k xs @ drop (k + n) xs) \<subseteq> set xs" for k
    using set_take_subset [of k xs] set_drop_subset [of "k + n" xs] by auto
  then show ?thesis by (simp add: splice_def Let_def)
qed

lemma indexOf_range: "- 1 \<le> indexOf xs x \<and> indexOf xs x < int (length xs)"
  by (induction xs) (auto simp: Let_def)

lemma length_splice_indexOf:
  assumes "xs \<noteq> []"
  shows "length (splice xs (indexOf xs x) 1 []) = length xs - 1"
proof -
  let ?i = "indexOf xs x"
  let ?n = "int (length xs)"
  let ?k = "nat (if ?i < 0 then max (?n + ?i) 0 else min ?i ?n)"
  from indexOf_range [of xs x] have r: "- 1 \<le> ?i" "?i < ?n" by simp_all
  from assms have "0 < ?n" by simp
  with r have "?k < length xs" by (auto simp: max_def min_def)
  then have "length (take ?k xs @ drop (?k + 1) xs) = length xs - 1" by auto
  then show ?thesis by (simp add: splice_def Let_def)
qed

lemma excise_one_child:
  assumes c: "b_children h x = [ch]" and p: "b_parent h x = Some p" and ne: "ch \<noteq> x"
  shows "\<exists>h'. excise h x = Some (Return p h') \<and>
           b_parent h' = (b_parent h)(ch := Some p) \<and>
           b_children h' = (b_children h)
             (p := splice (b_children h p @ [ch]) (indexOf (b_children h p @ [ch]) x) 1 [])"
  using c p ne
  by (simp add: excise_def isRoot_def eachChild_def excise_child_def Let_def)

lemma simplify_callback_inv:
  assumes inv: "simplify_inv N rank r h" and x: "x \<in> N" "x \<noteq> r"
  shows "\<exists>h'. simplify_callback h x = Some (Return () h') \<and> simplify_inv N rank r h'"
proof (cases "length (b_children h x) = 1")
  case False
  with inv show ?thesis by (simp add: simplify_callback_def)
next
  case True
  then obtain ch where ch: "b_children h x = [ch]" by (cases "b_children h x") auto
  from inv have kids: "\<forall>y\<in>N. \<forall>c\<in>set (b_children h y). c \<in> N \<and> c \<noteq> r \<and> rank c < rank y"
    and par: "\<forall>y\<in>N. y \<noteq> r \<longrightarrow> (\<exists>q\<in>N. b_parent h y = Some q \<and> rank y < rank q)"
    and rp: "b_parent h r = None"
    and rl: "length (b_children h r) = 1"
    and pos: "\<forall>y\<in>N. 0 < rank y"
    unfolding simplify_inv_def by blast+
  from kids x(1) ch have chN: "ch \<in> N" and chr: "ch \<noteq> r" and chx: "rank ch < rank x" by auto
  from par x obtain p where p: "p \<in> N" "b_parent h x = Some p" "rank x < rank p" by blast
  have ne: "ch \<noteq> x" using chx by auto
  let ?h1 = "if b_id h ch = [] then h\<lparr> b_id := (b_id h)(ch := b_id h x) \<rparr>
             else h\<lparr> b_id := (b_id h)(ch := b_id h x @ ''+'' @ b_id h ch) \<rparr>"
  have c1: "b_children ?h1 = b_children h" and p1: "b_parent ?h1 = b_parent h" by simp_all
  from excise_one_child [of ?h1 x ch p] ch p(2) ne c1 p1
  obtain h' where ex: "excise ?h1 x = Some (Return p h')"
    and ph: "b_parent h' = (b_parent h)(ch := Some p)"
    and kh: "b_children h' = (b_children h)
             (p := splice (b_children h p @ [ch]) (indexOf (b_children h p @ [ch]) x) 1 [])"
    by auto
  have cb: "simplify_callback h x = Some (Return () h')"
    using True ch ex by (simp add: simplify_callback_def Let_def)
  let ?new = "splice (b_children h p @ [ch]) (indexOf (b_children h p @ [ch]) x) 1 []"
  have sub: "set ?new \<subseteq> set (b_children h p) \<union> {ch}"
    using set_splice [of "b_children h p @ [ch]" "indexOf (b_children h p @ [ch]) x" 1] by auto
  have i1: "\<forall>y\<in>N. \<forall>c\<in>set (b_children h' y). c \<in> N \<and> c \<noteq> r \<and> rank c < rank y"
  proof (intro ballI)
    fix y c assume y: "y \<in> N" and c: "c \<in> set (b_children h' y)"
    show "c \<in> N \<and> c \<noteq> r \<and> rank c < rank y"
    proof (cases "y = p")
      case False
      with c kh have "c \<in> set (b_children h y)" by simp
      with kids y show ?thesis by blast
    next
      case True
      with c kh have "c \<in> set ?new" by simp
      with sub have "c \<in> set (b_children h p) \<or> c = ch" by blast
      then show ?thesis
      proof
        assume "c \<in> set (b_children h p)"
        with kids p(1) True show ?thesis by blast
      next
        assume "c = ch"
        with chN chr chx p(3) True show ?thesis by simp
      qed
    qed
  qed
  have i2: "\<forall>y\<in>N. y \<noteq> r \<longrightarrow> (\<exists>q\<in>N. b_parent h' y = Some q \<and> rank y < rank q)"
  proof (intro ballI impI)
    fix y assume y: "y \<in> N" "y \<noteq> r"
    show "\<exists>q\<in>N. b_parent h' y = Some q \<and> rank y < rank q"
    proof (cases "y = ch")
      case True
      with ph p chx show ?thesis by auto
    next
      case False
      with ph have "b_parent h' y = b_parent h y" by simp
      with par y show ?thesis by simp
    qed
  qed
  have i3: "b_parent h' r = None" using ph rp chr by simp
  have i4: "length (b_children h' r) = 1"
  proof (cases "r = p")
    case False
    with kh rl show ?thesis by simp
  next
    case True
    have "length ?new = length (b_children h p @ [ch]) - 1"
      by (rule length_splice_indexOf) simp
    with True kh rl show ?thesis by simp
  qed
  from pos i1 i2 i3 i4 have "simplify_inv N rank r h'" unfolding simplify_inv_def by blast
  with cb show ?thesis by blast
qed

lemma forEach_total:
  assumes step: "\<And>s c. J s \<Longrightarrow> c \<in> set (arr s) \<Longrightarrow> \<exists>s'. cb s c = Some (Return () s') \<and> J s'"
  shows "J s \<Longrightarrow> \<exists>s'. forEach arr cb n k s = Some (Return () s') \<and> J s'"
proof (induction n arbitrary: k s)
  case 0
  then show ?case by simp
next
  case (Suc n)
  show ?case
  proof (cases "k < length (arr s)")
    case False
    with Suc.IH [OF Suc.prems, of "Suc k"] show ?thesis by simp
  next
    case True
    then have "arr s ! k \<in> set (arr s)" by simp
    from step [OF Suc.prems this] obtain s' where
      s': "cb s (arr s ! k) = Some (Return () s')" "J s'" by blast
    from Suc.IH [OF s'(2), of "Suc k"] obtain s'' where
      "forEach arr cb n (Suc k) s' = Some (Return () s'')" "J s''" by blast
    with True s'(1) show ?thesis by simp
  qed
qed

lemma eachAfter_simplify_inv:
  "simplify_inv N rank r h \<Longrightarrow> x \<in> N \<Longrightarrow> x \<noteq> r \<Longrightarrow> rank x \<le> fuel \<Longrightarrow>
   \<exists>h'. eachAfter fuel id simplify_callback h x = Some (Return () h') \<and> simplify_inv N rank r h'"
proof (induction fuel arbitrary: h x)
  case 0
  then have "0 < rank x" unfolding simplify_inv_def by blast
  with 0 show ?case by simp
next
  case (Suc f)
  have step: "\<exists>s'. eachAfter f id simplify_callback s c = Some (Return () s') \<and>
                 simplify_inv N rank r s'"
    if "simplify_inv N rank r s" "c \<in> set (b_children (id s) x)" for s c
  proof -
    from that(1) have "\<forall>y\<in>N. \<forall>c\<in>set (b_children s y). c \<in> N \<and> c \<noteq> r \<and> rank c < rank y"
      unfolding simplify_inv_def by blast
    with that(2) Suc.prems(2) have c: "c \<in> N" "c \<noteq> r" "rank c < rank x" by auto
    with Suc.prems(4) have "rank c \<le> f" by simp
    with Suc.IH [OF that(1) c(1) c(2)] show ?thesis by blast
  qed
  from forEach_total [where J = "simplify_inv N rank r" and arr = "\<lambda>s. b_children (id s) x"
      and cb = "\<lambda>s c. eachAfter f id simplify_callback s c", OF step Suc.prems(1)]
  obtain h1 where
    f1: "forEach (\<lambda>s. b_children (id s) x) (\<lambda>s c. eachAfter f id simplify_callback s c)
           (length (b_children (id h) x)) 0 h = Some (Return () h1)"
    and i1: "simplify_inv N rank r h1" by blast
  from simplify_callback_inv [OF i1 Suc.prems(2) Suc.prems(3)] obtain h' where
    cb: "simplify_callback h1 x = Some (Return () h')" and i': "simplify_inv N rank r h'" by blast
  have "eachAfter (Suc f) id simplify_callback h x = Some (Return () h')"
    using f1 cb by (simp add: id_def)
  with i' show ?case by blast
qed

lemma simplify_callback_root:
  assumes inv: "simplify_inv N rank r h" and r: "r \<in> N"
  shows "\<exists>h'. simplify_callback h r = Some (Throw TypeError h')"
proof -
  from inv have kids: "\<forall>y\<in>N. \<forall>c\<in>set (b_children h y). c \<in> N \<and> c \<noteq> r \<and> rank c < rank y"
    and rp: "b_parent h r = None"
    and rl: "length (b_children h r) = 1"
    unfolding simplify_inv_def by blast+
  from rl obtain ch where ch: "b_children h r = [ch]" by (cases "b_children h r") auto
  with kids r have "ch \<noteq> r" by auto
  with ch rp rl show ?thesis
    by (simp add: simplify_callback_def excise_def isRoot_def eachChild_def excise_child_def Let_def)
qed

lemma foldr_max_zero: "(\<forall>u\<in>set ts. f u = 0) \<Longrightarrow> foldr max (map f ts) (0::nat) = 0"
  by (induction ts) simp_all

lemma a_rank_outside: "x \<notin> set (a_nodes t) \<Longrightarrow> a_rank t x = 0"
proof (induction t)
  case (ANode a ts)
  then have "\<forall>u\<in>set ts. a_rank u x = 0" by auto
  then have "foldr max (map (\<lambda>u. a_rank u x) ts) 0 = 0" by (rule foldr_max_zero)
  with ANode.prems show ?case by simp
qed

lemma a_rank_root: "a_rank t (a_root t) = a_height t"
  by (cases t) simp

lemma a_rank_forest:
  "distinct (concat (map a_nodes ts)) \<Longrightarrow> u \<in> set ts \<Longrightarrow> x \<in> set (a_nodes u) \<Longrightarrow>
   foldr max (map (\<lambda>v. a_rank v x) ts) 0 = a_rank u x"
proof (induction ts)
  case Nil
  then show ?case by simp
next
  case (Cons v vs)
  show ?case
  proof (cases "u = v")
    case True
    with Cons.prems have "\<forall>w\<in>set vs. x \<notin> set (a_nodes w)" by auto
    then have "\<forall>w\<in>set vs. a_rank w x = 0" by (simp add: a_rank_outside)
    then have "foldr max (map (\<lambda>w. a_rank w x) vs) 0 = 0" by (rule foldr_max_zero)
    with True show ?thesis by simp
  next
    case False
    with Cons.prems have u: "u \<in> set vs" by simp
    with Cons.prems have "x \<notin> set (a_nodes v)" by auto
    then have "a_rank v x = 0" by (rule a_rank_outside)
    moreover from Cons.prems have "distinct (concat (map a_nodes vs))" by simp
    from Cons.IH [OF this u Cons.prems(3)]
    have "foldr max (map (\<lambda>w. a_rank w x) vs) 0 = a_rank u x" .
    ultimately show ?thesis by simp
  qed
qed

lemma a_rank_sub:
  assumes d: "distinct (a_nodes (ANode a ts))" and u: "u \<in> set ts" and x: "x \<in> set (a_nodes u)"
  shows "a_rank (ANode a ts) x = a_rank u x"
proof -
  from d u x have "x \<noteq> a" by auto
  moreover from d have "distinct (concat (map a_nodes ts))" by simp
  from a_rank_forest [OF this u x] have "foldr max (map (\<lambda>v. a_rank v x) ts) 0 = a_rank u x" .
  ultimately show ?thesis by simp
qed

lemma distinct_forest: "distinct (concat (map a_nodes ts)) \<Longrightarrow> u \<in> set ts \<Longrightarrow> distinct (a_nodes u)"
  by (induction ts) auto

lemma distinct_subtree:
  "distinct (a_nodes (ANode a ts)) \<Longrightarrow> u \<in> set ts \<Longrightarrow> distinct (a_nodes u)"
  using distinct_forest [of ts u] by simp

lemma a_rank_pos: "distinct (a_nodes t) \<Longrightarrow> x \<in> set (a_nodes t) \<Longrightarrow> 0 < a_rank t x"
proof (induction t)
  case (ANode a ts)
  show ?case
  proof (cases "x = a")
    case True
    then show ?thesis by simp
  next
    case False
    with ANode.prems(2) obtain u where u: "u \<in> set ts" "x \<in> set (a_nodes u)" by auto
    have "distinct (a_nodes u)" by (rule distinct_subtree [OF ANode.prems(1) u(1)])
    from ANode.IH [OF u(1) this u(2)] a_rank_sub [OF ANode.prems(1) u] show ?thesis by simp
  qed
qed

lemma a_height_sub: "u \<in> set ts \<Longrightarrow> a_height u < a_height (ANode a ts)"
  using a_height_member [of u ts] by simp

lemma rank_children:
  "shape h t \<Longrightarrow> distinct (a_nodes t) \<Longrightarrow> x \<in> set (a_nodes t) \<Longrightarrow>
   c \<in> set (b_children h x) \<Longrightarrow>
   c \<in> set (a_nodes t) \<and> c \<noteq> a_root t \<and> a_rank t c < a_rank t x"
proof (induction t)
  case (ANode a ts)
  let ?t = "ANode a ts"
  show ?case
  proof (cases "x = a")
    case True
    with ANode.prems(1,4) obtain u where u: "u \<in> set ts" "c = a_root u" by auto
    have cu: "c \<in> set (a_nodes u)" using u(2) by (simp add: a_root_in_nodes)
    with u(1) have cN: "c \<in> set (a_nodes ?t)" by auto
    from ANode.prems(2) u(1) cu have ca: "c \<noteq> a" by auto
    have "a_rank ?t c = a_rank u c" by (rule a_rank_sub [OF ANode.prems(2) u(1) cu])
    also have "\<dots> = a_height u" using u(2) by (simp add: a_rank_root)
    also have "\<dots> < a_height ?t" by (rule a_height_sub [OF u(1)])
    finally have "a_rank ?t c < a_rank ?t x" using True by simp
    with cN ca show ?thesis by simp
  next
    case False
    with ANode.prems(3) obtain u where u: "u \<in> set ts" "x \<in> set (a_nodes u)" by auto
    from ANode.prems(1) u(1) have su: "shape h u" by simp
    have du: "distinct (a_nodes u)" by (rule distinct_subtree [OF ANode.prems(2) u(1)])
    from ANode.IH [OF u(1) su du u(2) ANode.prems(4)]
    have c: "c \<in> set (a_nodes u)" "a_rank u c < a_rank u x" by simp_all
    from c(1) u(1) have cN: "c \<in> set (a_nodes ?t)" by auto
    from ANode.prems(2) u(1) c(1) have ca: "c \<noteq> a" by auto
    have "a_rank ?t c = a_rank u c" by (rule a_rank_sub [OF ANode.prems(2) u(1) c(1)])
    moreover have "a_rank ?t x = a_rank u x" by (rule a_rank_sub [OF ANode.prems(2) u])
    ultimately show ?thesis using c(2) cN ca by simp
  qed
qed

lemma rank_parent:
  "parents_ok h t \<Longrightarrow> distinct (a_nodes t) \<Longrightarrow> x \<in> set (a_nodes t) \<Longrightarrow> x \<noteq> a_root t \<Longrightarrow>
   \<exists>p\<in>set (a_nodes t). b_parent h x = Some p \<and> a_rank t x < a_rank t p"
proof (induction t)
  case (ANode a ts)
  let ?t = "ANode a ts"
  from ANode.prems(3,4) obtain u where u: "u \<in> set ts" "x \<in> set (a_nodes u)" by auto
  from ANode.prems(1) u(1) have pu: "parents_ok h u" "b_parent h (a_root u) = Some a" by auto
  have du: "distinct (a_nodes u)" by (rule distinct_subtree [OF ANode.prems(2) u(1)])
  have rx: "a_rank ?t x = a_rank u x" by (rule a_rank_sub [OF ANode.prems(2) u])
  show ?case
  proof (cases "x = a_root u")
    case True
    have "a_rank u x = a_height u" using True by (simp add: a_rank_root)
    also have "\<dots> < a_height ?t" by (rule a_height_sub [OF u(1)])
    finally have "a_rank ?t x < a_rank ?t a" using rx by simp
    moreover have "a \<in> set (a_nodes ?t)" by simp
    ultimately show ?thesis using pu(2) True by blast
  next
    case False
    from ANode.IH [OF u(1) pu(1) du u(2) False] obtain p where
      p: "p \<in> set (a_nodes u)" "b_parent h x = Some p" "a_rank u x < a_rank u p" by blast
    have "a_rank ?t p = a_rank u p" by (rule a_rank_sub [OF ANode.prems(2) u(1) p(1)])
    with rx p(3) have "a_rank ?t x < a_rank ?t p" by simp
    moreover from p(1) u(1) have "p \<in> set (a_nodes ?t)" by auto
    ultimately show ?thesis using p(2) by blast
  qed
qed

lemma simplify_inv_initial:
  assumes tr: "is_tree h t" and rt: "b_parent h (a_root t) = None"
    and one: "length (b_children h (a_root t)) = 1"
  shows "simplify_inv (set (a_nodes t)) (a_rank t) (a_root t) h"
proof -
  from tr have sh: "shape h t" and po: "parents_ok h t" and di: "distinct (a_nodes t)"
    by (simp_all add: is_tree_def)
  have 0: "\<forall>x\<in>set (a_nodes t). 0 < a_rank t x" using a_rank_pos [OF di] by blast
  have 1: "\<forall>x\<in>set (a_nodes t). \<forall>c\<in>set (b_children h x).
      c \<in> set (a_nodes t) \<and> c \<noteq> a_root t \<and> a_rank t c < a_rank t x"
    using rank_children [OF sh di] by blast
  have 2: "\<forall>x\<in>set (a_nodes t). x \<noteq> a_root t \<longrightarrow>
      (\<exists>p\<in>set (a_nodes t). b_parent h x = Some p \<and> a_rank t x < a_rank t p)"
    using rank_parent [OF po di] by blast
  from 0 1 2 rt one show ?thesis unfolding simplify_inv_def by blast
qed

text \<open>
  C10: on a well-formed tree whose root has exactly one child, \<open>simplify\<close> called on
  the root with fuel for the height of the tree does not return: the traversal of the
  subtree returns, the callback then calls \<open>excise\<close> on the root, and that throws the
  TypeError of reading \<open>this.parent.children\<close> on a null parent. The callback of
  \<open>consolidate\<close> on the same root returns at once and leaves the store as it is.
\<close>

theorem simplify_one_child_root_throws:
  "is_tree h t \<Longrightarrow> b_parent h (a_root t) = None \<Longrightarrow> length (b_children h (a_root t)) = 1 \<Longrightarrow>
   a_height t \<le> fuel \<Longrightarrow>
   (\<exists>h'. simplify fuel h (a_root t) = Some (Throw TypeError h')) \<and>
   consolidate_callback h (a_root t) = Some (Return () h)"
proof -
  assume tr: "is_tree h t" and rt: "b_parent h (a_root t) = None"
    and one: "length (b_children h (a_root t)) = 1" and fuel: "a_height t \<le> fuel"
  let ?N = "set (a_nodes t)" and ?r = "a_root t"
  let ?J = "simplify_inv ?N (a_rank t) ?r"
  have inv: "?J h" by (rule simplify_inv_initial [OF tr rt one])
  have rN: "?r \<in> ?N" by (rule a_root_in_nodes)
  from fuel obtain f where f: "fuel = Suc f" by (cases t; cases fuel) auto
  have step: "\<exists>s'. eachAfter f id simplify_callback s c = Some (Return () s') \<and> ?J s'"
    if "?J s" "c \<in> set (b_children s ?r)" for s c
  proof -
    from that(1) have "\<forall>y\<in>?N. \<forall>c\<in>set (b_children s y). c \<in> ?N \<and> c \<noteq> ?r \<and> a_rank t c < a_rank t y"
      unfolding simplify_inv_def by blast
    with that(2) rN have c: "c \<in> ?N" "c \<noteq> ?r" "a_rank t c < a_rank t ?r" by auto
    with fuel f have "a_rank t c \<le> f" by (simp add: a_rank_root)
    from eachAfter_simplify_inv [OF that(1) c(1) c(2) this] show ?thesis .
  qed
  from forEach_total [where J = ?J and arr = "\<lambda>s. b_children s ?r"
      and cb = "\<lambda>s c. eachAfter f id simplify_callback s c", OF step inv]
  obtain h1 where
    f1: "forEach (\<lambda>s. b_children s ?r) (\<lambda>s c. eachAfter f id simplify_callback s c)
           (length (b_children h ?r)) 0 h = Some (Return () h1)"
    and i1: "?J h1" by blast
  from simplify_callback_root [OF i1 rN] obtain h' where
    cb: "simplify_callback h1 ?r = Some (Throw TypeError h')" by blast
  have "eachAfter (Suc f) id simplify_callback h ?r = Some (Throw TypeError h')"
    using f1 cb by (simp add: id_def)
  then have "simplify fuel h ?r = Some (Throw TypeError h')"
    using f by (simp add: simplify_def)
  moreover have "consolidate_callback h ?r = Some (Return () h)"
    using rt by (simp add: consolidate_callback_def isRoot_def)
  ultimately show ?thesis by blast
qed


theorem simplify_one_child_root_throws_witness:
  "is_tree one_child_root one_child_root_shape \<and>
   b_parent one_child_root (a_root one_child_root_shape) = None \<and>
   length (b_children one_child_root (a_root one_child_root_shape)) = 1 \<and>
   a_height one_child_root_shape \<le> 3 \<and>
   (\<exists>h'. simplify 3 one_child_root (a_root one_child_root_shape) = Some (Throw TypeError h')) \<and>
   consolidate_callback one_child_root (a_root one_child_root_shape)
     = Some (Return () one_child_root)"
proof -
  have t: "is_tree one_child_root one_child_root_shape"
    by (simp add: is_tree_def one_child_root_shape_def one_child_root_def)
  have r: "b_parent one_child_root (a_root one_child_root_shape) = None"
    by (simp add: one_child_root_shape_def one_child_root_def)
  have c: "length (b_children one_child_root (a_root one_child_root_shape)) = 1"
    by (simp add: one_child_root_shape_def one_child_root_def)
  have f: "a_height one_child_root_shape \<le> 3" by (simp add: one_child_root_shape_def)
  from simplify_one_child_root_throws [OF t r c f] t r c f show ?thesis by blast
qed

section \<open>Neighbor joining: the branch lengths\<close>


























section \<open>The Newick round trip on a root without children\<close>

text \<open>
  C1: the round trip \<open>parseNewick(toNewick(T))\<close> loses the id of a root that has no
  children. For the single Branch with the id A and length 0, \<open>toNewick\<close> gives
  \<open>A;\<close>, which splits into the tokens A, the semicolon and the empty string. The id is
  the first token: it has no token before it, so the scan takes it neither for an id
  nor for a length, and the Branch that \<open>parseNewick\<close> returns (at address 1) has the
  empty id. An id that follows a closing parenthesis is kept: parsing \<open>(A,B)R;\<close>
  gives a root with the id R and the children A and B.
\<close>

theorem parseNewick_drops_lone_root_id:
  "toNewick 1 numberToString lone_leaf 0 False = Some ''A;'' \<and>
   split_newick ''A;'' = [''A'', '';'', []] \<and>
   (\<exists>h'. parseNewick 1 parseFloat ''A;'' lone_leaf = Some (Return 1 h') \<and>
      b_id h' 1 = [] \<and> b_children h' 1 = [] \<and> b_parent h' 1 = None \<and>
      b_id lone_leaf 0 = ''A'' \<and> b_children lone_leaf 0 = []) \<and>
   (\<exists>h'. parseNewick 2 parseFloat ''(A,B)R;'' empty_heap = Some (Return 0 h') \<and>
      b_id h' 0 = ''R'' \<and> b_children h' 0 = [1, 2] \<and> b_id h' 1 = ''A'' \<and> b_id h' 2 = ''B'')"
proof -
  have 1: "toNewick 1 numberToString lone_leaf 0 False = Some ''A;''"
    by (simp add: lone_leaf_def isLeaf_def)
  have 2: "split_newick ''A;'' = [''A'', '';'', []]"
    by (simp add: split_newick_def is_space_def is_delim_def)
  have 3: "\<exists>h'. parseNewick 1 parseFloat ''A;'' lone_leaf = Some (Return 1 h') \<and>
      b_id h' 1 = [] \<and> b_children h' 1 = [] \<and> b_parent h' 1 = None \<and>
      b_id lone_leaf 0 = ''A'' \<and> b_children lone_leaf 0 = []"
    by (simp add: parseNewick_def 2 Branch_def lone_leaf_def parse_token_def Let_def
        fixDistances_def fixDistances_before_def fixDistances_after_def isRoot_def)
  have 4: "\<exists>h'. parseNewick 2 parseFloat ''(A,B)R;'' empty_heap = Some (Return 0 h') \<and>
      b_id h' 0 = ''R'' \<and> b_children h' 0 = [1, 2] \<and> b_id h' 1 = ''A'' \<and> b_id h' 2 = ''B''"
    by (simp add: parseNewick_def split_newick_def is_space_def is_delim_def Branch_def
        empty_heap_def parse_token_def Let_def addChild_data_def fixDistances_def
        fixDistances_before_def fixDistances_after_def isRoot_def eval_nat_numeral)
  from 1 2 3 4 show ?thesis by blast
qed

section \<open>The Newick round trip on trees with clean ids\<close>

text \<open>
  \<open>toNewick\<close> on a tree laid out in the store gives the text of its content.
\<close>

lemma flatp_simps [simp]:
  "flatp [] = []" "flatp ((d, t) # ps) = d # t @ flatp ps" "flatp (ps @ qs) = flatp ps @ flatp qs"
  by (simp_all add: flatp_def)

lemma toks_simps [simp]:
  "toks [] = []" "toks ((d, t) # ps) = [d] # t # toks ps" "toks (ps @ qs) = toks ps @ toks qs"
  by (simp_all add: toks_def)

lemma join_kid_pairs:
  "d # join '','' (map (str ns) (c # cs)) = flatp (kid_pairs ns d (c # cs))"
proof (induction cs arbitrary: d c)
  case Nil
  show ?case by (simp add: str_def)
next
  case (Cons c' cs)
  have "join '','' (map (str ns) (c # c' # cs))
      = str ns c @ CHR '','' # join '','' (map (str ns) (c' # cs))" by simp
  also have "CHR '','' # join '','' (map (str ns) (c' # cs)) = flatp (kid_pairs ns (CHR '','') (c' # cs))"
    by (rule Cons.IH)
  finally show ?case by (simp add: str_def)
qed

lemma those_list_map_Some: "those_list (map (\<lambda>x. Some (f x)) xs) = Some (map f xs)"
  by (induction xs) simp_all

lemma toNewick_str:
  "shape h t \<Longrightarrow> a_height t \<le> fuel \<Longrightarrow>
   toNewick fuel ns h (a_root t) nt
     = Some (str ns (content h t) @ (if nt then [] else '';''))"
proof (induction t arbitrary: fuel nt)
  case (ANode a ts)
  from ANode.prems(2) obtain f where fuel: "fuel = Suc f" by (cases fuel) auto
  from ANode.prems(1) have kids: "b_children h a = map a_root ts"
    and sh: "\<forall>u\<in>set ts. shape h u" by simp_all
  have leaf: "isLeaf h a = (ts = [])" using kids by (simp add: isLeaf_def)
  have each: "toNewick f ns h (a_root u) True = Some (str ns (content h u))" if "u \<in> set ts" for u
  proof -
    from that have "a_height u \<le> foldr max (map a_height ts) 0" by (rule a_height_member)
    with ANode.prems(2) fuel have "a_height u \<le> f" by simp
    from ANode.IH [OF that _ this, of True] sh that show ?thesis by simp
  qed
  have "map (\<lambda>child. toNewick f ns h child True) (b_children h a)
      = map (\<lambda>u. Some (str ns (content h u))) ts"
    unfolding kids map_map by (rule map_cong [OF refl]) (simp add: each)
  then have th: "those_list (map (\<lambda>child. toNewick f ns h child True) (b_children h a))
      = Some (map (\<lambda>u. str ns (content h u)) ts)"
    by (simp add: those_list_map_Some)
  show ?case
  proof (cases ts)
    case Nil
    with leaf fuel show ?thesis by (simp add: str_def Let_def)
  next
    case (Cons u us)
    have "CHR ''('' # join '','' (map (str ns) (map (content h) (u # us)))
        = flatp (kid_pairs ns (CHR ''('') (map (content h) (u # us)))"
      using join_kid_pairs [of "CHR ''(''" ns "content h u" "map (content h) us"] by simp
    then have j: "CHR ''('' # join '','' (map (\<lambda>u. str ns (content h u)) ts)
        = flatp (kid_pairs ns (CHR ''('') (map (content h) ts))"
      using Cons by (simp add: comp_def)
    have ne: "map (content h) ts \<noteq> []" using Cons by simp
    from leaf Cons have nl: "\<not> isLeaf h a" by simp
    show ?thesis
      unfolding fuel a_root.simps toNewick.simps th
      using nl ne j by (simp add: str_def Let_def)
  qed
qed

lemma delim_not_space: "is_delim d \<Longrightarrow> \<not> is_space d"
  by (auto simp: is_delim_def is_space_def)

lemma split_no_delim:
  "\<forall>c\<in>set tx. \<not> is_delim c \<Longrightarrow> split_tokens acc tx = [rev acc @ tx]"
proof (induction tx arbitrary: acc)
  case Nil
  show ?case by simp
next
  case (Cons c cs)
  have rec: "split_tokens acc (c # cs) = split_tokens (c # acc) cs"
  proof (cases "dropWhile is_space (c # cs)")
    case Nil
    then show ?thesis by (simp only: split_tokens.simps list.case)
  next
    case (Cons d r)
    then have "d \<in> set (dropWhile is_space (c # cs))" by simp
    then have "d \<in> set (c # cs)" using set_dropWhileD by fast
    with Cons.prems have "\<not> is_delim d" by blast
    with Cons show ?thesis by (simp only: split_tokens.simps list.case if_False)
  qed
  from Cons.prems have "\<forall>c\<in>set cs. \<not> is_delim c" by simp
  from Cons.IH [OF this, of "c # acc"] rec show ?case by simp
qed

lemma split_text:
  assumes "\<forall>c\<in>set tx. \<not> is_delim c" and "tx \<noteq> [] \<longrightarrow> \<not> is_space (last tx)"
    and "is_delim d"
  shows "split_tokens acc (tx @ d # rest)
     = (rev acc @ tx) # [d] # split_tokens [] (dropWhile is_space rest)"
  using assms(1,2)
proof (induction tx arbitrary: acc)
  case Nil
  from assms(3) have "\<not> is_space d" by (rule delim_not_space)
  with assms(3) show ?case by simp
next
  case (Cons c cs)
  have "\<exists>e r. dropWhile is_space ((c # cs) @ d # rest) = e # r \<and> \<not> is_delim e"
  proof -
    from Cons.prems(2) have ns: "\<not> is_space (last (c # cs))" by simp
    have "last (c # cs) \<in> set (c # cs)" by (rule last_in_set) simp
    with ns have ex: "\<exists>x\<in>set (c # cs). \<not> is_space x" by blast
    then have dw: "dropWhile is_space ((c # cs) @ d # rest) = dropWhile is_space (c # cs) @ d # rest"
      by (metis dropWhile_append1)
    from ex have "dropWhile is_space (c # cs) \<noteq> []" by (simp only: dropWhile_eq_Nil_conv) blast
    then obtain e r where er: "dropWhile is_space (c # cs) = e # r"
      by (cases "dropWhile is_space (c # cs)") auto
    then have "e \<in> set (dropWhile is_space (c # cs))" by simp
    then have "e \<in> set (c # cs)" using set_dropWhileD by fast
    with Cons.prems(1) have "\<not> is_delim e" by blast
    with dw er show ?thesis by simp
  qed
  then obtain e r where er: "dropWhile is_space (c # cs @ d # rest) = e # r" and ne: "\<not> is_delim e"
    by auto
  have rec: "split_tokens acc (c # cs @ d # rest) = split_tokens (c # acc) (cs @ d # rest)"
    using er ne by (simp only: split_tokens.simps list.case if_False)
  from Cons.prems have 1: "\<forall>c\<in>set cs. \<not> is_delim c" and 2: "cs \<noteq> [] \<longrightarrow> \<not> is_space (last cs)"
    by auto
  from Cons.IH [OF 1 2, of "c # acc"] rec show ?case by simp
qed

lemma dropWhile_clean:
  assumes "clean t" and "rest \<noteq> [] \<and> \<not> is_space (hd rest)"
  shows "dropWhile is_space (t @ rest) = t @ rest"
proof (cases t)
  case Nil
  with assms(2) show ?thesis by (cases rest) auto
next
  case (Cons c cs)
  with assms(1) have "\<not> is_space c" by (simp add: clean_def)
  with Cons show ?thesis by simp
qed

lemma split_pairs:
  assumes "clean_pairs ps"
  shows "\<forall>c\<in>set tx. \<not> is_delim c \<Longrightarrow> tx \<noteq> [] \<longrightarrow> \<not> is_space (last tx) \<Longrightarrow>
     split_tokens acc (tx @ flatp ps @ '';'')
       = (rev acc @ tx) # toks ps @ ['';'', []]"
  using assms
proof (induction ps arbitrary: acc tx)
  case Nil
  have "is_delim (CHR '';'')" by (simp add: is_delim_def)
  from split_text [OF Nil.prems(1,2) this, of acc "[]"] show ?case by simp
next
  case (Cons p ps)
  obtain d t where p: "p = (d, t)" by (cases p)
  from Cons.prems(3) p have d: "is_delim d" and t: "clean t" and rest: "clean_pairs ps"
    by (auto simp: clean_pairs_def)
  let ?rest = "flatp ps @ '';''"
  have hd: "?rest \<noteq> [] \<and> \<not> is_space (hd ?rest)"
  proof (cases ps)
    case Nil
    then show ?thesis by (simp add: is_space_def)
  next
    case (Cons q qs)
    obtain d' t' where q: "q = (d', t')" by (cases q)
    with rest Cons have "is_delim d'" by (auto simp: clean_pairs_def)
    then have "\<not> is_space d'" by (rule delim_not_space)
    with Cons q show ?thesis by simp
  qed
  have dw: "dropWhile is_space (t @ ?rest) = t @ ?rest" by (rule dropWhile_clean [OF t hd])
  from t have t1: "\<forall>c\<in>set t. \<not> is_delim c" and t2: "t \<noteq> [] \<longrightarrow> \<not> is_space (last t)"
    by (auto simp: clean_def)
  have "split_tokens acc (tx @ flatp (p # ps) @ '';'')
      = split_tokens acc (tx @ d # (t @ ?rest))" using p by simp
  also have "\<dots> = (rev acc @ tx) # [d] # split_tokens [] (dropWhile is_space (t @ ?rest))"
    by (rule split_text [OF Cons.prems(1,2) d])
  also have "split_tokens [] (dropWhile is_space (t @ ?rest)) = split_tokens [] (t @ ?rest)"
    using dw by simp
  also have "split_tokens [] (t @ ?rest) = (rev [] @ t) # toks ps @ ['';'', []]"
    by (rule Cons.IH [OF t1 t2 rest])
  finally show ?case using p by simp
qed

lemma clean_pairs_tree:
  "newick_ok ns pf T \<Longrightarrow> clean_pairs (pairs ns T)"
  and "\<forall>c\<in>set cs. newick_ok ns pf c \<Longrightarrow> is_delim d \<Longrightarrow> clean_pairs (kid_pairs ns d cs)"
proof (induction ns T and ns d cs rule: pairs_kid_pairs.induct)
  case (1 ns i l ts)
  have a: "clean_pairs (kid_pairs ns (CHR ''('') ts)" if "ts \<noteq> []"
    using 1 that by (simp add: is_delim_def)
  have b: "clean_pairs [(CHR '')'', i)]" using 1(2) by (simp add: clean_pairs_def is_delim_def)
  have c: "clean_pairs [(CHR '':'', ns l)]" if "l \<noteq> 0"
    using 1(2) that by (simp add: clean_pairs_def is_delim_def)
  have app: "clean_pairs (xs @ ys)" if "clean_pairs xs" "clean_pairs ys" for xs ys
    using that by (auto simp: clean_pairs_def)
  have nil: "clean_pairs []" by (simp add: clean_pairs_def)
  show ?case using a b c app nil by simp
next
  case (2 ns d)
  show ?case by (simp add: clean_pairs_def)
next
  case (3 ns d c cs)
  from 3(3) have okc: "newick_ok ns pf c" and okcs: "\<forall>c\<in>set cs. newick_ok ns pf c" by simp_all
  have h: "clean (head_text c)" using okc by (cases c) (simp add: clean_def)
  have 1: "clean_pairs (pairs ns c)" by (rule 3(1) [OF okc])
  have 2: "clean_pairs (kid_pairs ns (CHR '','') cs)" by (rule 3(2) [OF okcs]) (simp add: is_delim_def)
  from h 1 2 3(4) show ?case by (auto simp: clean_pairs_def)
qed

lemma split_str:
  assumes ok: "newick_ok ns pf T"
  shows "split_newick (str ns T @ '';'') = head_text T # toks (pairs ns T) @ ['';'', []]"
proof -
  have h: "clean (head_text T)" using ok by (cases T) (simp add: clean_def)
  then have 1: "\<forall>c\<in>set (head_text T). \<not> is_delim c"
    and 2: "head_text T \<noteq> [] \<longrightarrow> \<not> is_space (last (head_text T))" by (auto simp: clean_def)
  from split_pairs [OF clean_pairs_tree(1) [OF ok] 1 2, of "[]"]
  show ?thesis by (simp add: split_newick_def str_def)
qed

lemma clean_not_single:
  assumes "clean t" and "is_delim d"
  shows "t \<noteq> [d]"
proof
  assume "t = [d]"
  then have "d \<in> set t" by simp
  moreover from assms(1) have "\<forall>c\<in>set t. \<not> is_delim c" by (simp add: clean_def)
  ultimately show False using assms(2) by blast
qed

lemma is_delim_chars:
  "is_delim (CHR ''('')" "is_delim (CHR '','')" "is_delim (CHR '')'')" "is_delim (CHR '':'')"
  "is_delim (CHR '';'')"
  by (simp_all add: is_delim_def)

lemma clean_not_delim_token:
  assumes "clean t"
  shows "t \<noteq> ''(''" "t \<noteq> '',''" "t \<noteq> '')''" "t \<noteq> '':''" "t \<noteq> '';''"
  by (rule clean_not_single [OF assms], rule is_delim_chars)+

lemma clean_textual: "clean t \<Longrightarrow> textual (Some t)"
  using clean_not_delim_token [of t] by (simp add: textual_def)

lemma parse_text_id:
  assumes "clean t" and "x = Some ''('' \<or> x = Some '','' \<or> x = Some '')''"
  shows "parse_token pf x t (anc, Some a, h)
     = Return () (anc, Some a, h\<lparr> b_id := (b_id h)(a := t) \<rparr>)"
  using clean_not_delim_token [OF assms(1)] assms(2)
  by (auto simp: parse_token_def Let_def)

lemma parse_text_length:
  assumes "clean t" and "pf t = Some v"
  shows "parse_token pf (Some '':'') t (anc, Some a, h)
     = Return () (anc, Some a, h\<lparr> b_length := (b_length h)(a := v) \<rparr>)"
  using clean_not_delim_token [OF assms(1)] assms(2)
  by (simp add: parse_token_def Let_def)

lemma parse_text_skip:
  assumes "clean t" and "textual x"
  shows "parse_token pf x t s = Return () s"
  using clean_not_delim_token [OF assms(1)] assms(2)
  by (simp add: parse_token_def Let_def textual_def)

lemma parse_open:
  "parse_token pf x ''('' (anc, Some a, h)
     = Return () (anc @ [a], Some (fst (addChild_data h a [] 0)), snd (addChild_data h a [] 0))"
  by (simp add: parse_token_def Let_def split_beta)

lemma parse_comma:
  "parse_token pf x '','' (anc @ [a], tr, h)
     = Return () (anc @ [a], Some (fst (addChild_data h a [] 0)), snd (addChild_data h a [] 0))"
  by (simp add: parse_token_def Let_def split_beta)

lemma parse_close:
  "parse_token pf x '')'' (anc @ [a], tr, h) = Return () (anc, Some a, h)"
  by (simp add: parse_token_def Let_def)

lemma parse_colon:
  "parse_token pf x '':'' s = Return () s"
  by (simp add: parse_token_def Let_def)

lemma parse_tree:
  "newick_ok ns pf T \<Longrightarrow>
   \<exists>x'. textual x' \<and>
     parse_loop pf (Some (head_text T)) (toks (pairs ns T) @ rest) (anc, Some a, h)
       = parse_loop pf x' rest (anc, Some a, fill_node T a h)"
proof (induction T arbitrary: rest anc a h)
  case (NNode i l ts)
  from NNode.prems have ci: "clean i"
    and num: "l \<noteq> 0 \<longrightarrow> clean (ns l) \<and> pf (ns l) = Some l"
    and oks: "\<forall>c\<in>set ts. newick_ok ns pf c" by simp_all
  have tail: "\<exists>x'. textual x' \<and>
      parse_loop pf x (toks (if l \<noteq> 0 then [(CHR '':'', ns l)] else []) @ rest) (anc, Some a, h1)
        = parse_loop pf x' rest
            (anc, Some a, if l \<noteq> 0 then h1\<lparr> b_length := (b_length h1)(a := l) \<rparr> else h1)"
    if "textual x" for x h1
  proof (cases "l = 0")
    case True
    have "parse_loop pf x (toks (if l \<noteq> 0 then [(CHR '':'', ns l)] else []) @ rest) (anc, Some a, h1)
        = parse_loop pf x rest
            (anc, Some a, if l \<noteq> 0 then h1\<lparr> b_length := (b_length h1)(a := l) \<rparr> else h1)"
      using True by simp
    with that show ?thesis by (intro exI [of _ x] conjI)
  next
    case False
    with num have c: "clean (ns l)" and p: "pf (ns l) = Some l" by simp_all
    have "parse_loop pf x (toks [(CHR '':'', ns l)] @ rest) (anc, Some a, h1)
        = parse_loop pf (Some (ns l)) rest (anc, Some a, h1\<lparr> b_length := (b_length h1)(a := l) \<rparr>)"
      by (simp add: parse_colon parse_text_length [where pf = pf, OF c p])
    with False have "parse_loop pf x (toks (if l \<noteq> 0 then [(CHR '':'', ns l)] else []) @ rest) (anc, Some a, h1)
        = parse_loop pf (Some (ns l)) rest
            (anc, Some a, if l \<noteq> 0 then h1\<lparr> b_length := (b_length h1)(a := l) \<rparr> else h1)"
      by simp
    with clean_textual [OF c] show ?thesis by (intro exI [of _ "Some (ns l)"] conjI)
  qed
  have kids: "\<exists>x'. textual x' \<and>
      parse_loop pf x (toks (kid_pairs ns d cs) @ '')'' # i # rest') (anc', tr, h0)
        = parse_loop pf x' rest'
            (anc, Some a, (fill_kids cs a h0)\<lparr> b_id := (b_id (fill_kids cs a h0))(a := i) \<rparr>)"
    if "set cs \<subseteq> set ts" "entry d anc' tr anc a" "d = CHR ''('' \<longrightarrow> cs \<noteq> []"
    for cs d anc' tr h0 x rest'
    using that
  proof (induction cs arbitrary: d anc' tr h0 x)
    case Nil
    from Nil.prems(2,3) have a': "anc' = anc @ [a]" by (auto simp: entry_def)
    have "parse_loop pf x ('')'' # i # rest') (anc', tr, h0)
        = parse_loop pf (Some i) rest' (anc, Some a, h0\<lparr> b_id := (b_id h0)(a := i) \<rparr>)"
      unfolding a' by (simp add: parse_close parse_text_id [OF ci])
    then have "parse_loop pf x (toks (kid_pairs ns d []) @ '')'' # i # rest') (anc', tr, h0)
        = parse_loop pf (Some i) rest'
            (anc, Some a, (fill_kids [] a h0)\<lparr> b_id := (b_id (fill_kids [] a h0))(a := i) \<rparr>)"
      by simp
    with clean_textual [OF ci] show ?case by (intro exI [of _ "Some i"] conjI)
  next
    case (Cons c cs)
    from Cons.prems(1) have cin: "c \<in> set ts" and sub: "set cs \<subseteq> set ts" by simp_all
    from oks cin have okc: "newick_ok ns pf c" by blast
    have ch: "clean (head_text c)" using okc by (cases c) (simp add: clean_def)
    let ?c' = "fst (addChild_data h0 a [] 0)"
    let ?h1 = "snd (addChild_data h0 a [] 0)"
    let ?h2 = "?h1\<lparr> b_id := (b_id ?h1)(?c' := head_text c) \<rparr>"
    have first: "parse_token pf x [d] (anc', tr, h0) = Return () (anc @ [a], Some ?c', ?h1)"
      using Cons.prems(2) unfolding entry_def
    proof (elim disjE conjE)
      assume "d = CHR ''(''" "anc' = anc" "tr = Some a"
      then show ?thesis by (simp only: parse_open)
    next
      assume "d = CHR '',''" "anc' = anc @ [a]"
      then show ?thesis by (simp only: parse_comma)
    qed
    have dx: "Some [d] = Some ''('' \<or> Some [d] = Some '','' \<or> Some [d] = Some '')''"
      using Cons.prems(2) by (auto simp: entry_def)
    have second: "parse_token pf (Some [d]) (head_text c) (anc @ [a], Some ?c', ?h1)
        = Return () (anc @ [a], Some ?c', ?h2)"
      by (rule parse_text_id [OF ch dx])
    let ?rest = "toks (kid_pairs ns (CHR '','') cs) @ '')'' # i # rest'"
    from NNode.IH [OF cin okc, of ?rest "anc @ [a]" ?c' ?h2] obtain x1 where
      x1: "textual x1"
      and sub1: "parse_loop pf (Some (head_text c)) (toks (pairs ns c) @ ?rest) (anc @ [a], Some ?c', ?h2)
        = parse_loop pf x1 ?rest (anc @ [a], Some ?c', fill_node c ?c' ?h2)"
      by blast
    have e: "entry (CHR '','') (anc @ [a]) (Some ?c') anc a" by (simp add: entry_def)
    from Cons.IH [OF sub e, of x1 "fill_node c ?c' ?h2"] obtain x' where
      x': "textual x'"
      and sub2: "parse_loop pf x1 ?rest (anc @ [a], Some ?c', fill_node c ?c' ?h2)
        = parse_loop pf x' rest'
            (anc, Some a, (fill_kids cs a (fill_node c ?c' ?h2))
               \<lparr> b_id := (b_id (fill_kids cs a (fill_node c ?c' ?h2)))(a := i) \<rparr>)"
      by blast
    have fk: "fill_kids (c # cs) a h0 = fill_kids cs a (fill_node c ?c' ?h2)"
      by (simp add: Let_def split_beta)
    have "toks (kid_pairs ns d (c # cs)) @ '')'' # i # rest'
        = [d] # head_text c # toks (pairs ns c) @ ?rest" by simp
    then have "parse_loop pf x (toks (kid_pairs ns d (c # cs)) @ '')'' # i # rest') (anc', tr, h0)
        = parse_loop pf (Some (head_text c)) (toks (pairs ns c) @ ?rest) (anc @ [a], Some ?c', ?h2)"
      using first second by (simp only: parse_loop.simps result.case)
    also note sub1
    also note sub2
    finally have "parse_loop pf x (toks (kid_pairs ns d (c # cs)) @ '')'' # i # rest') (anc', tr, h0)
        = parse_loop pf x' rest'
            (anc, Some a, (fill_kids (c # cs) a h0)
               \<lparr> b_id := (b_id (fill_kids (c # cs) a h0))(a := i) \<rparr>)"
      unfolding fk .
    with x' show ?case by (intro exI [of _ x'] conjI)
  qed
  show ?case
  proof (cases "ts = []")
    case True
    have "textual (Some (head_text (NNode i l ts)))" using True ci by (simp add: clean_textual)
    from tail [OF this, of h] obtain x' where "textual x'"
      and "parse_loop pf (Some (head_text (NNode i l ts)))
             (toks (if l \<noteq> 0 then [(CHR '':'', ns l)] else []) @ rest) (anc, Some a, h)
        = parse_loop pf x' rest
            (anc, Some a, if l \<noteq> 0 then h\<lparr> b_length := (b_length h)(a := l) \<rparr> else h)"
      by blast
    moreover have "pairs ns (NNode i l ts) = (if l \<noteq> 0 then [(CHR '':'', ns l)] else [])"
      using True by simp
    moreover have "fill_node (NNode i l ts) a h
        = (if l \<noteq> 0 then h\<lparr> b_length := (b_length h)(a := l) \<rparr> else h)"
      using True by simp
    ultimately show ?thesis by (intro exI [of _ x'] conjI) simp_all
  next
    case False
    have e: "entry (CHR ''('') anc (Some a) anc a" by (simp add: entry_def)
    let ?tl = "toks (if l \<noteq> 0 then [(CHR '':'', ns l)] else []) @ rest"
    have "CHR ''('' = CHR ''('' \<longrightarrow> ts \<noteq> []" using False by simp
    from kids [OF subset_refl e this, of "Some (head_text (NNode i l ts))" ?tl h]
    obtain x1 where x1: "textual x1"
      and k: "parse_loop pf (Some (head_text (NNode i l ts)))
           (toks (kid_pairs ns (CHR ''('') ts) @ '')'' # i # ?tl) (anc, Some a, h)
        = parse_loop pf x1 ?tl
            (anc, Some a, (fill_kids ts a h)\<lparr> b_id := (b_id (fill_kids ts a h))(a := i) \<rparr>)"
      by blast
    from tail [OF x1, of "(fill_kids ts a h)\<lparr> b_id := (b_id (fill_kids ts a h))(a := i) \<rparr>"]
    obtain x' where x': "textual x'"
      and t: "parse_loop pf x1 ?tl
            (anc, Some a, (fill_kids ts a h)\<lparr> b_id := (b_id (fill_kids ts a h))(a := i) \<rparr>)
        = parse_loop pf x' rest
            (anc, Some a,
             if l \<noteq> 0
             then (fill_kids ts a h)\<lparr> b_id := (b_id (fill_kids ts a h))(a := i) \<rparr>
                    \<lparr> b_length := (b_length ((fill_kids ts a h)\<lparr> b_id := (b_id (fill_kids ts a h))(a := i) \<rparr>))(a := l) \<rparr>
             else (fill_kids ts a h)\<lparr> b_id := (b_id (fill_kids ts a h))(a := i) \<rparr>)"
      by blast
    have fn: "fill_node (NNode i l ts) a h
        = (if l \<noteq> 0
             then (fill_kids ts a h)\<lparr> b_id := (b_id (fill_kids ts a h))(a := i) \<rparr>
                    \<lparr> b_length := (b_length ((fill_kids ts a h)\<lparr> b_id := (b_id (fill_kids ts a h))(a := i) \<rparr>))(a := l) \<rparr>
             else (fill_kids ts a h)\<lparr> b_id := (b_id (fill_kids ts a h))(a := i) \<rparr>)"
      using False by (simp add: Let_def)
    have "toks (pairs ns (NNode i l ts)) @ rest
        = toks (kid_pairs ns (CHR ''('') ts) @ '')'' # i # ?tl" using False by simp
    with k t have "parse_loop pf (Some (head_text (NNode i l ts)))
           (toks (pairs ns (NNode i l ts)) @ rest) (anc, Some a, h)
        = parse_loop pf x' rest (anc, Some a, fill_node (NNode i l ts) a h)"
      unfolding fn by simp
    with x' show ?thesis by (intro exI [of _ x'] conjI)
  qed
qed

lemma shape_cong_on:
  "(\<forall>x\<in>set (a_nodes t). b_children h' x = b_children h x) \<Longrightarrow> shape h' t = shape h t"
proof (induction t)
  case (ANode a ts)
  have "shape h' u = shape h u" if "u \<in> set ts" for u
  proof (rule ANode.IH [OF that])
    show "\<forall>x\<in>set (a_nodes u). b_children h' x = b_children h x"
      using ANode.prems that by auto
  qed
  moreover have "b_children h' a = b_children h a" using ANode.prems by simp
  ultimately show ?case by simp
qed

lemma parents_ok_cong_on:
  "(\<forall>x\<in>set (a_nodes t). b_parent h' x = b_parent h x) \<Longrightarrow> parents_ok h' t = parents_ok h t"
proof (induction t)
  case (ANode a ts)
  have "parents_ok h' u = parents_ok h u \<and> b_parent h' (a_root u) = b_parent h (a_root u)"
    if "u \<in> set ts" for u
  proof
    show "parents_ok h' u = parents_ok h u"
    proof (rule ANode.IH [OF that])
      show "\<forall>x\<in>set (a_nodes u). b_parent h' x = b_parent h x"
        using ANode.prems that by auto
    qed
    have "a_root u \<in> set (a_nodes u)" by (rule a_root_in_nodes)
    with ANode.prems that show "b_parent h' (a_root u) = b_parent h (a_root u)" by auto
  qed
  then show ?case by simp
qed

lemma content_cong_on:
  "(\<forall>x\<in>set (a_nodes t). b_id h' x = b_id h x \<and> b_length h' x = b_length h x) \<Longrightarrow>
   content h' t = content h t"
proof (induction t)
  case (ANode a ts)
  have "content h' u = content h u" if "u \<in> set ts" for u
  proof (rule ANode.IH [OF that])
    show "\<forall>x\<in>set (a_nodes u). b_id h' x = b_id h x \<and> b_length h' x = b_length h x"
      using ANode.prems that by auto
  qed
  then have "map (content h') ts = map (content h) ts" by simp
  moreover have "b_id h' a = b_id h a" "b_length h' a = b_length h a" using ANode.prems by simp_all
  ultimately show ?case by simp
qed

lemma addChild_data_fresh:
  assumes "a < next_addr h"
  shows "fst (addChild_data h a [] 0) = next_addr h"
    and "next_addr (snd (addChild_data h a [] 0)) = Suc (next_addr h)"
    and "b_children (snd (addChild_data h a [] 0))
           = (b_children h)(next_addr h := [], a := b_children h a @ [next_addr h])"
    and "b_parent (snd (addChild_data h a [] 0)) = (b_parent h)(next_addr h := Some a)"
    and "b_id (snd (addChild_data h a [] 0)) = (b_id h)(next_addr h := [])"
    and "b_length (snd (addChild_data h a [] 0)) = (b_length h)(next_addr h := 0)"
  using assms by (auto simp: addChild_data_def Branch_def Let_def fun_eq_iff)

lemma nsize_pos: "0 < nsize T"
  by (cases T) simp

lemma frame_trans:
  "frame n a h h1 \<Longrightarrow> frame m a h1 h2 \<Longrightarrow> n \<le> m \<Longrightarrow> frame n a h h2"
  unfolding frame_def by (metis less_le_trans)

lemma kids_post_step:
  assumes a: "a < next_addr h0"
    and h2: "h2 = (snd (addChild_data h0 a [] 0))
               \<lparr> b_id := (b_id (snd (addChild_data h0 a [] 0)))(next_addr h0 := head_text c) \<rparr>"
    and np: "node_post c (next_addr h0) h2 h3"
    and kp: "kids_post cs a h3 h'"
  shows "kids_post (c # cs) a h0 h'"
proof -
  let ?n0 = "next_addr h0"
  let ?h1 = "snd (addChild_data h0 a [] 0)"
  let ?u1 = "built c ?n0 (Suc ?n0)"
  let ?n3 = "?n0 + nsize c"
  note f = addChild_data_fresh [OF a]
  have an: "a \<noteq> ?n0" using a by simp
  have n2: "next_addr h2 = Suc ?n0" using h2 f(2) by simp
  have c2: "b_children h2 a = b_children h0 a @ [?n0]" using h2 f(3) by simp
  have p2: "b_parent h2 ?n0 = Some a" "b_parent h2 a = b_parent h0 a" using h2 f(4) an by simp_all
  have i2: "b_id h2 a = b_id h0 a" using h2 f(5) an by simp
  have l2: "b_length h2 a = b_length h0 a" using h2 f(6) an by simp
  have fr02: "frame ?n0 a h0 h2" using h2 f(3,4,5,6) by (simp add: frame_def)
  from np have n3: "next_addr h3 = Suc ?n0 + (nsize c - 1)"
    and sh3: "shape h3 ?u1" and po3: "parents_ok h3 ?u1" and co3: "content h3 ?u1 = c"
    and no3: "a_nodes ?u1 = ?n0 # [Suc ?n0 ..< Suc ?n0 + (nsize c - 1)]"
    and fr23: "frame (Suc ?n0) ?n0 h2 h3" and pp3: "b_parent h3 ?n0 = b_parent h2 ?n0"
    unfolding node_post_def n2 by simp_all
  have n3': "next_addr h3 = ?n3" using n3 nsize_pos [of c] by simp
  have no3': "a_nodes ?u1 = [?n0 ..< ?n3]"
    using no3 nsize_pos [of c] by (simp add: upt_conv_Cons)
  have a3: "b_children h3 a = b_children h0 a @ [?n0]" "b_parent h3 a = b_parent h0 a"
    "b_id h3 a = b_id h0 a" "b_length h3 a = b_length h0 a"
    using fr23 a an c2 p2 i2 l2 unfolding frame_def by simp_all
  have fr03: "frame ?n0 a h0 h3"
    using fr02 fr23 unfolding frame_def by simp
  from kp have n': "next_addr h' = ?n3 + sum_list (map nsize cs)"
    and ch': "b_children h' a = b_children h3 a @ map a_root (builts cs ?n3)"
    and us': "\<forall>u\<in>set (builts cs ?n3).
         shape h' u \<and> parents_ok h' u \<and> b_parent h' (a_root u) = Some a"
    and co': "map (content h') (builts cs ?n3) = cs"
    and no': "concat (map a_nodes (builts cs ?n3)) = [?n3 ..< ?n3 + sum_list (map nsize cs)]"
    and fr3': "frame ?n3 a h3 h'"
    and a': "b_parent h' a = b_parent h3 a" "b_id h' a = b_id h3 a" "b_length h' a = b_length h3 a"
    unfolding kids_post_def n3' by simp_all
  have inside: "x < ?n3 \<and> x \<noteq> a" if "x \<in> set (a_nodes ?u1)" for x
    using that a unfolding no3' by auto
  have keep: "b_children h' x = b_children h3 x \<and> b_parent h' x = b_parent h3 x \<and>
      b_id h' x = b_id h3 x \<and> b_length h' x = b_length h3 x" if "x \<in> set (a_nodes ?u1)" for x
    using inside [OF that] fr3' unfolding frame_def by blast
  have sh1: "shape h' ?u1"
  proof -
    have "shape h' ?u1 = shape h3 ?u1" by (rule shape_cong_on) (simp add: keep)
    with sh3 show ?thesis by simp
  qed
  have po1: "parents_ok h' ?u1"
  proof -
    have "parents_ok h' ?u1 = parents_ok h3 ?u1" by (rule parents_ok_cong_on) (simp add: keep)
    with po3 show ?thesis by simp
  qed
  have co1: "content h' ?u1 = c"
  proof -
    have "content h' ?u1 = content h3 ?u1" by (rule content_cong_on) (simp add: keep)
    with co3 show ?thesis by simp
  qed
  have r1: "a_root ?u1 = ?n0" by (cases c) simp
  have "?n0 \<in> set (a_nodes ?u1)" using r1 a_root_in_nodes [of ?u1] by simp
  from keep [OF this] pp3 p2 have pa1: "b_parent h' (a_root ?u1) = Some a" using r1 by simp
  have bs: "builts (c # cs) ?n0 = ?u1 # builts cs ?n3" by simp
  have 1: "next_addr h' = ?n0 + sum_list (map nsize (c # cs))" using n' by simp
  have 2: "b_children h' a = b_children h0 a @ map a_root (builts (c # cs) ?n0)"
    unfolding bs using ch' a3(1) r1 by simp
  have 3: "\<forall>u\<in>set (builts (c # cs) ?n0).
      shape h' u \<and> parents_ok h' u \<and> b_parent h' (a_root u) = Some a"
    unfolding bs using us' sh1 po1 pa1 by simp
  have 4: "map (content h') (builts (c # cs) ?n0) = c # cs"
    unfolding bs using co' co1 by simp
  have "[?n0 ..< ?n3] @ [?n3 ..< ?n3 + sum_list (map nsize cs)]
      = [?n0 ..< ?n3 + sum_list (map nsize cs)]"
    by (metis le_add1 upt_add_eq_append)
  then have 5: "concat (map a_nodes (builts (c # cs) ?n0))
      = [?n0 ..< ?n0 + sum_list (map nsize (c # cs))]"
    unfolding bs using no' no3' by (simp add: add.assoc)
  have 6: "frame ?n0 a h0 h'"
    by (rule frame_trans [OF fr03 fr3']) simp
  have 7: "b_parent h' a = b_parent h0 a" "b_id h' a = b_id h0 a" "b_length h' a = b_length h0 a"
    using a' a3 by simp_all
  from 1 2 3 4 5 6 7 show ?thesis unfolding kids_post_def by blast
qed

lemma kids_post_nil: "kids_post [] a h0 h0"
  by (simp add: kids_post_def frame_def)

lemma node_post_from_kids:
  assumes a: "a < next_addr h"
    and ch: "b_children h a = []" and len: "b_length h a = 0"
    and ident: "b_id h a = head_text (NNode i l ts)"
    and kp: "kids_post ts a h hk"
  shows "node_post (NNode i l ts) a h
           (let h1 = (if ts = [] then hk else hk\<lparr> b_id := (b_id hk)(a := i) \<rparr>)
            in if l \<noteq> 0 then h1\<lparr> b_length := (b_length h1)(a := l) \<rparr> else h1)"
proof -
  let ?n = "next_addr h"
  let ?us = "builts ts ?n"
  let ?h1 = "if ts = [] then hk else hk\<lparr> b_id := (b_id hk)(a := i) \<rparr>"
  let ?h' = "if l \<noteq> 0 then ?h1\<lparr> b_length := (b_length ?h1)(a := l) \<rparr> else ?h1"
  from kp have nk: "next_addr hk = ?n + sum_list (map nsize ts)"
    and chk: "b_children hk a = b_children h a @ map a_root ?us"
    and usk: "\<forall>u\<in>set ?us. shape hk u \<and> parents_ok hk u \<and> b_parent hk (a_root u) = Some a"
    and cok: "map (content hk) ?us = ts"
    and nok: "concat (map a_nodes ?us) = [?n ..< ?n + sum_list (map nsize ts)]"
    and frk: "frame ?n a h hk"
    and ak: "b_parent hk a = b_parent h a" "b_id hk a = b_id h a" "b_length hk a = b_length h a"
    unfolding kids_post_def by simp_all
  have same: "b_children ?h' = b_children hk" "b_parent ?h' = b_parent hk"
    "next_addr ?h' = next_addr hk" by simp_all
  have other: "b_id ?h' x = b_id hk x \<and> b_length ?h' x = b_length hk x" if "x \<noteq> a" for x
    using that by simp
  have notin: "a \<notin> set (a_nodes u)" if "u \<in> set ?us" for u
  proof
    assume "a \<in> set (a_nodes u)"
    with that have "a \<in> set (concat (map a_nodes ?us))" by auto
    with nok a show False by simp
  qed
  have ida: "b_id ?h' a = i"
  proof (cases "ts = []")
    case True
    with ident ak(2) show ?thesis by simp
  next
    case False
    then show ?thesis by simp
  qed
  have lena: "b_length ?h' a = l"
  proof (cases "l = 0")
    case True
    have "b_length ?h1 a = b_length hk a" by simp
    with True ak(3) len show ?thesis by simp
  next
    case False
    then show ?thesis by simp
  qed
  have shu: "shape ?h' u" if "u \<in> set ?us" for u
  proof -
    have "shape ?h' u = shape hk u" by (rule shape_cong) (rule same(1))
    with usk that show ?thesis by blast
  qed
  have pou: "parents_ok ?h' u \<and> b_parent ?h' (a_root u) = Some a" if "u \<in> set ?us" for u
  proof -
    have "parents_ok ?h' u = parents_ok hk u" by (rule parents_ok_cong) (rule same(2))
    with usk that same(2) show ?thesis by simp
  qed
  have cou: "content ?h' u = content hk u" if "u \<in> set ?us" for u
  proof (rule content_cong_on, rule ballI)
    fix x assume "x \<in> set (a_nodes u)"
    with notin [OF that] have "x \<noteq> a" by blast
    then show "b_id ?h' x = b_id hk x \<and> b_length ?h' x = b_length hk x" by (rule other)
  qed
  have bt: "built (NNode i l ts) a ?n = ANode a ?us" by simp
  have sz: "nsize (NNode i l ts) - 1 = sum_list (map nsize ts)" by simp
  have 1: "next_addr ?h' = ?n + (nsize (NNode i l ts) - 1)"
    unfolding sz using nk same(3) by simp
  have "b_children ?h' a = map a_root ?us" using chk ch same(1) by simp
  with shu have 2: "shape ?h' (built (NNode i l ts) a ?n)" unfolding bt by simp
  have 3: "parents_ok ?h' (built (NNode i l ts) a ?n)" unfolding bt using pou by simp
  have "map (content ?h') ?us = map (content hk) ?us" by (rule map_cong [OF refl]) (rule cou)
  with cok ida lena have 4: "content ?h' (built (NNode i l ts) a ?n) = NNode i l ts"
    unfolding bt by simp
  have 5: "a_nodes (built (NNode i l ts) a ?n) = a # [?n ..< ?n + (nsize (NNode i l ts) - 1)]"
    unfolding bt sz using nok by simp
  have 6: "frame ?n a h ?h'"
    using frk unfolding frame_def by simp
  have 7: "b_parent ?h' a = b_parent h a" using ak(1) same(2) by simp
  from 1 2 3 4 5 6 7 show ?thesis unfolding node_post_def Let_def by blast
qed

lemma fill_node_post:
  "a < next_addr h \<Longrightarrow> b_children h a = [] \<Longrightarrow> b_length h a = 0 \<Longrightarrow>
   b_id h a = head_text T \<Longrightarrow> node_post T a h (fill_node T a h)"
proof (induction T arbitrary: a h)
  case (NNode i l ts)
  have kids: "kids_post cs a h0 (fill_kids cs a h0)"
    if "set cs \<subseteq> set ts" "a < next_addr h0" for cs h0
    using that
  proof (induction cs arbitrary: h0)
    case Nil
    show ?case by (simp add: kids_post_nil)
  next
    case (Cons c cs)
    from Cons.prems(1) have cin: "c \<in> set ts" and sub: "set cs \<subseteq> set ts" by simp_all
    let ?n0 = "next_addr h0"
    let ?h1 = "snd (addChild_data h0 a [] 0)"
    let ?h2 = "?h1\<lparr> b_id := (b_id ?h1)(?n0 := head_text c) \<rparr>"
    note f = addChild_data_fresh [OF Cons.prems(2)]
    have an: "a \<noteq> ?n0" using Cons.prems(2) by simp
    have p1: "?n0 < next_addr ?h2" using f(2) by simp
    have p2: "b_children ?h2 ?n0 = []" using f(3) an by simp
    have p3: "b_length ?h2 ?n0 = 0" using f(6) by simp
    have p4: "b_id ?h2 ?n0 = head_text c" by simp
    have np: "node_post c ?n0 ?h2 (fill_node c ?n0 ?h2)"
      by (rule NNode.IH [OF cin p1 p2 p3 p4])
    then have "next_addr (fill_node c ?n0 ?h2) = next_addr ?h2 + (nsize c - 1)"
      unfolding node_post_def by blast
    with p1 Cons.prems(2) have a3: "a < next_addr (fill_node c ?n0 ?h2)" by simp
    have kp: "kids_post cs a (fill_node c ?n0 ?h2) (fill_kids cs a (fill_node c ?n0 ?h2))"
      by (rule Cons.IH [OF sub a3])
    have fk: "fill_kids (c # cs) a h0 = fill_kids cs a (fill_node c ?n0 ?h2)"
      using f(1) by (simp add: Let_def split_beta)
    show ?case unfolding fk by (rule kids_post_step [OF Cons.prems(2) refl np kp])
  qed
  have kp: "kids_post ts a h (fill_kids ts a h)"
    by (rule kids [OF subset_refl NNode.prems(1)])
  have fn: "fill_node (NNode i l ts) a h
      = (let h1 = (if ts = [] then fill_kids ts a h
                   else (fill_kids ts a h)\<lparr> b_id := (b_id (fill_kids ts a h))(a := i) \<rparr>)
         in if l \<noteq> 0 then h1\<lparr> b_length := (b_length h1)(a := l) \<rparr> else h1)"
    by (cases ts) (simp_all add: Let_def)
  show ?case unfolding fn
    by (rule node_post_from_kids [OF NNode.prems(1,2,3,4) kp])
qed

lemma parse_semicolon: "textual x \<Longrightarrow> parse_token pf x '';'' s = Return () s"
  by (simp add: parse_token_def Let_def textual_def)

lemma clean_Nil: "clean []"
  by (simp add: clean_def)

lemma a_height_built: "a_height (built (content h t) a n) = a_height t"
proof (induction t arbitrary: a n)
  case (ANode b ts)
  have "map a_height (builts (map (content h) us) m) = map a_height us"
    if "set us \<subseteq> set ts" for us m
    using that
  proof (induction us arbitrary: m)
    case Nil
    show ?case by simp
  next
    case (Cons u us)
    from Cons.prems have "u \<in> set ts" "set us \<subseteq> set ts" by simp_all
    with ANode.IH [of u m "Suc m"] Cons.IH [of "m + nsize (content h u)"]
    show ?case by simp
  qed
  from this [OF subset_refl, of n] show ?case by simp
qed

text \<open>
  Apart from the id of a root without children, the round trip holds. For a
  well-formed tree with clean ids whose root has a child or the empty id, with the
  conversions of numbers such that every length other than 0 is printed as a clean text
  and read back as the same number, \<open>toNewick\<close> returns a string, \<open>parseNewick\<close> of
  that string returns the root of a well-formed tree of new Branches, and this tree has
  the children, ids and lengths of the first.
\<close>

theorem newick_round_trip:
  assumes tr: "is_tree h t" and fuel: "a_height t \<le> fuel"
    and ok: "newick_ok numberToString parseFloat (content h t)"
    and rt: "b_children h (a_root t) \<noteq> [] \<or> b_id h (a_root t) = []"
  shows "\<exists>s r h' t'.
     toNewick fuel numberToString h (a_root t) False = Some s \<and>
     parseNewick fuel parseFloat s h = Some (Return r h') \<and>
     is_tree h' t' \<and> a_root t' = r \<and> b_parent h' r = None \<and>
     content h' t' = content h t"
proof -
  let ?T = "content h t"
  let ?s = "str numberToString ?T @ '';''"
  let ?r = "next_addr h"
  from tr have sh: "shape h t" by (simp add: is_tree_def)
  have s: "toNewick fuel numberToString h (a_root t) False = Some ?s"
    using toNewick_str [OF sh fuel, of numberToString False] by simp
  have sp: "split_newick ?s = head_text ?T # toks (pairs numberToString ?T) @ ['';'', []]"
    by (rule split_str [OF ok])
  obtain h1 where b: "Branch [] 0 None [] h = (?r, h1)"
    and n1: "next_addr h1 = Suc ?r" and c1: "b_children h1 ?r = []"
    and l1: "b_length h1 ?r = 0" and i1: "b_id h1 ?r = []" and p1: "b_parent h1 ?r = None"
    by (simp add: Branch_def Let_def)
  have ht: "head_text ?T = []"
  proof (cases t)
    case (ANode a ts)
    with sh have "b_children h a = map a_root ts" by simp
    with rt ANode show ?thesis by auto
  qed
  let ?h2 = "fill_node ?T ?r h1"
  from parse_tree [OF ok, of "['';'', []]" "[]" ?r h1] obtain x' where x': "textual x'"
    and pt: "parse_loop parseFloat (Some (head_text ?T))
               (toks (pairs numberToString ?T) @ ['';'', []]) ([], Some ?r, h1)
        = parse_loop parseFloat x' ['';'', []] ([], Some ?r, ?h2)"
    by blast
  have "textual None" by (simp add: textual_def)
  have first: "parse_token parseFloat None (head_text ?T) ([], Some ?r, h1)
      = Return () ([], Some ?r, h1)"
    unfolding ht by (rule parse_text_skip [OF clean_Nil \<open>textual None\<close>])
  have "textual (Some '';'')" by (simp add: textual_def)
  then have last: "parse_token parseFloat (Some '';'') [] ([], Some ?r, ?h2)
      = Return () ([], Some ?r, ?h2)"
    by (rule parse_text_skip [OF clean_Nil])
  have fin: "parse_loop parseFloat x' ['';'', []] ([], Some ?r, ?h2) = Return () ([], Some ?r, ?h2)"
    using parse_semicolon [OF x', of parseFloat "([], Some ?r, ?h2)"] last
    by (simp only: parse_loop.simps result.case)
  have "parse_loop parseFloat None (split_newick ?s) ([], Some ?r, h1)
      = parse_loop parseFloat (Some (head_text ?T))
          (toks (pairs numberToString ?T) @ ['';'', []]) ([], Some ?r, h1)"
    unfolding sp using first by (simp only: parse_loop.simps result.case)
  with pt fin have pl: "parse_loop parseFloat None (split_newick ?s) ([], Some ?r, h1)
      = Return () ([], Some ?r, ?h2)" by simp
  have np: "node_post ?T ?r h1 ?h2"
  proof (rule fill_node_post)
    show "?r < next_addr h1" using n1 by simp
    show "b_children h1 ?r = []" by (rule c1)
    show "b_length h1 ?r = 0" by (rule l1)
    show "b_id h1 ?r = head_text ?T" using i1 ht by simp
  qed
  let ?t' = "built ?T ?r (Suc ?r)"
  from np have sh2: "shape ?h2 ?t'" and po2: "parents_ok ?h2 ?t'" and co2: "content ?h2 ?t' = ?T"
    and no2: "a_nodes ?t' = ?r # [Suc ?r ..< Suc ?r + (nsize ?T - 1)]"
    and pa2: "b_parent ?h2 ?r = b_parent h1 ?r"
    unfolding node_post_def n1 by simp_all
  have "?r \<notin> set [Suc ?r ..< m]" for m by (simp only: set_upt atLeastLessThan_iff) simp
  then have di2: "distinct (a_nodes ?t')"
    unfolding no2 by (simp only: distinct.simps distinct_upt simp_thms)
  have tr2: "is_tree ?h2 ?t'" using sh2 po2 di2 by (simp add: is_tree_def)
  have rt': "a_root ?t' = ?r" by (cases "content h t") simp
  have pr2: "b_parent ?h2 (a_root ?t') = None" using pa2 p1 rt' by simp
  have fu2: "a_height ?t' \<le> fuel" using fuel by (simp add: a_height_built)
  from fixDistances_on_tree [OF tr2 pr2 fu2] obtain dp hh vv where
    fd: "fixDistances fuel ?h2 ?r
       = Some (Return ?r (?h2\<lparr> b_depth := dp, b_height := hh, b_value := vv \<rparr>))"
    unfolding rt' by blast
  let ?h' = "?h2\<lparr> b_depth := dp, b_height := hh, b_value := vv \<rparr>"
  have run: "parseNewick fuel parseFloat ?s h = Some (Return ?r ?h')"
    using b pl fd by (simp add: parseNewick_def Let_def)
  have "shape ?h' ?t' = shape ?h2 ?t'" by (rule shape_cong) simp
  moreover have "parents_ok ?h' ?t' = parents_ok ?h2 ?t'" by (rule parents_ok_cong) simp
  ultimately have tr': "is_tree ?h' ?t'" using sh2 po2 di2 by (simp add: is_tree_def)
  have "content ?h' ?t' = content ?h2 ?t'" by (rule content_cong_on) simp
  with co2 have co': "content ?h' ?t' = ?T" by simp
  have pr': "b_parent ?h' ?r = None" using pa2 p1 by simp
  from s run tr' rt' pr' co' show ?thesis by blast
qed

lemma tree_ABCD_newick_ok: "newick_ok digit_string digit_value (content tree_ABCD tree_ABCD_shape)"
  by (simp add: tree_ABCD_shape_def tree_ABCD_def clean_def is_space_def is_delim_def
      digit_string_def digit_value_def)

lemma tree_ABCD_toNewick: "toNewick 3 digit_string tree_ABCD 0 False = Some ''(A:1,B:2,(C:3,D:4):5);''"
  by (simp add: tree_ABCD_def isLeaf_def digit_string_def eval_nat_numeral)

theorem newick_round_trip_witness:
  "is_tree tree_ABCD tree_ABCD_shape \<and> a_height tree_ABCD_shape \<le> 3 \<and>
   newick_ok digit_string digit_value (content tree_ABCD tree_ABCD_shape) \<and>
   b_children tree_ABCD (a_root tree_ABCD_shape) = [1, 2, 3] \<and>
   (\<exists>r h' t'.
     toNewick 3 digit_string tree_ABCD (a_root tree_ABCD_shape) False
       = Some ''(A:1,B:2,(C:3,D:4):5);'' \<and>
     parseNewick 3 digit_value ''(A:1,B:2,(C:3,D:4):5);'' tree_ABCD = Some (Return r h') \<and>
     is_tree h' t' \<and> a_root t' = r \<and> b_parent h' r = None \<and>
     content h' t' = content tree_ABCD tree_ABCD_shape)"
proof -
  have f: "a_height tree_ABCD_shape \<le> 3" by (simp add: tree_ABCD_shape_def)
  have c: "b_children tree_ABCD (a_root tree_ABCD_shape) = [1, 2, 3]"
    by (simp add: tree_ABCD_shape_def tree_ABCD_def)
  then have c': "b_children tree_ABCD (a_root tree_ABCD_shape) \<noteq> [] \<or>
      b_id tree_ABCD (a_root tree_ABCD_shape) = []" by simp
  have r0: "a_root tree_ABCD_shape = 0" by (simp add: tree_ABCD_shape_def)
  from newick_round_trip [OF tree_ABCD_is_tree f tree_ABCD_newick_ok c'] obtain s r h' t' where
    1: "toNewick 3 digit_string tree_ABCD (a_root tree_ABCD_shape) False = Some s"
    and 2: "parseNewick 3 digit_value s tree_ABCD = Some (Return r h')"
    and 3: "is_tree h' t'" "a_root t' = r" "b_parent h' r = None"
      "content h' t' = content tree_ABCD tree_ABCD_shape"
    by blast
  from 1 tree_ABCD_toNewick r0 have s: "s = ''(A:1,B:2,(C:3,D:4):5);''" by simp
  from 1 2 3 tree_ABCD_is_tree f tree_ABCD_newick_ok c show ?thesis unfolding s by blast
qed

end
